theory Spec2Isabelle
  imports Complex_Main
begin

section \<open>Numbers, errors and the sampling library\<close>

text \<open>
  The simulation computes with float64 values. A finite value is modelled by the real
  number it stands for (no rounding, no overflow, one zero); the three special values
  that numpy's \<open>log\<close>, \<open>sqrt\<close> and division return outside their real domain are kept,
  because numpy returns them (with a warning) where real arithmetic has no value.
\<close>

datatype npfloat = Fin real | PInf | NInf | NaN

fun fl_neg :: "npfloat \<Rightarrow> npfloat" where
  "fl_neg (Fin a) = Fin (- a)"
| "fl_neg PInf = NInf"
| "fl_neg NInf = PInf"
| "fl_neg NaN = NaN"

fun fl_add :: "npfloat \<Rightarrow> npfloat \<Rightarrow> npfloat" where
  "fl_add (Fin a) (Fin b) = Fin (a + b)"
| "fl_add NaN y = NaN"
| "fl_add x NaN = NaN"
| "fl_add PInf NInf = NaN"
| "fl_add NInf PInf = NaN"
| "fl_add PInf y = PInf"
| "fl_add NInf y = NInf"
| "fl_add x PInf = PInf"
| "fl_add x NInf = NInf"

definition fl_sub :: "npfloat \<Rightarrow> npfloat \<Rightarrow> npfloat" where
  "fl_sub x y = fl_add x (fl_neg y)"

text \<open>The sign of a value: \<open>Some True\<close> above zero, \<open>Some False\<close> below, \<open>None\<close> for zero and nan.\<close>

fun fl_sign :: "npfloat \<Rightarrow> bool option" where
  "fl_sign (Fin a) = (if 0 < a then Some True else if a < 0 then Some False else None)"
| "fl_sign PInf = Some True"
| "fl_sign NInf = Some False"
| "fl_sign NaN = None"

definition inf_of :: "bool \<Rightarrow> npfloat" where
  "inf_of pos = (if pos then PInf else NInf)"

fun fl_mul :: "npfloat \<Rightarrow> npfloat \<Rightarrow> npfloat" where
  "fl_mul (Fin a) (Fin b) = Fin (a * b)"
| "fl_mul NaN y = NaN"
| "fl_mul x NaN = NaN"
| "fl_mul x y =
     (case (fl_sign x, fl_sign y) of
        (Some p, Some q) \<Rightarrow> inf_of (p = q)
      | _ \<Rightarrow> NaN)"

fun fl_div :: "npfloat \<Rightarrow> npfloat \<Rightarrow> npfloat" where
  "fl_div (Fin a) (Fin b) =
     (if b \<noteq> 0 then Fin (a / b)
      else if 0 < a then PInf else if a < 0 then NInf else NaN)"
| "fl_div NaN y = NaN"
| "fl_div x NaN = NaN"
| "fl_div (Fin a) y = Fin 0"
| "fl_div PInf (Fin b) = (if 0 \<le> b then PInf else NInf)"
| "fl_div NInf (Fin b) = (if 0 \<le> b then NInf else PInf)"
| "fl_div x y = NaN"

text \<open>Python's \<open>x ** 2\<close>.\<close>

definition fl_sq :: "npfloat \<Rightarrow> npfloat" where
  "fl_sq x = fl_mul x x"

fun np_exp :: "npfloat \<Rightarrow> npfloat" where
  "np_exp (Fin a) = Fin (exp a)"
| "np_exp PInf = PInf"
| "np_exp NInf = Fin 0"
| "np_exp NaN = NaN"

text \<open>\<open>np.log\<close> raises nothing: it returns \<open>-inf\<close> at zero and \<open>nan\<close> below zero.\<close>

fun np_log :: "npfloat \<Rightarrow> npfloat" where
  "np_log (Fin a) = (if 0 < a then Fin (ln a) else if a = 0 then NInf else NaN)"
| "np_log PInf = PInf"
| "np_log NInf = NaN"
| "np_log NaN = NaN"

fun np_sqrt :: "npfloat \<Rightarrow> npfloat" where
  "np_sqrt (Fin a) = (if 0 \<le> a then Fin (sqrt a) else NaN)"
| "np_sqrt PInf = PInf"
| "np_sqrt NInf = NaN"
| "np_sqrt NaN = NaN"

text \<open>Comparisons of floats: every comparison with \<open>nan\<close> is false, also \<open>nan == nan\<close>.\<close>

fun fl_lt :: "npfloat \<Rightarrow> npfloat \<Rightarrow> bool" where
  "fl_lt (Fin a) (Fin b) = (a < b)"
| "fl_lt NaN y = False"
| "fl_lt x NaN = False"
| "fl_lt x NInf = False"
| "fl_lt PInf y = False"
| "fl_lt NInf y = True"
| "fl_lt x PInf = True"

fun fl_eq :: "npfloat \<Rightarrow> npfloat \<Rightarrow> bool" where
  "fl_eq (Fin a) (Fin b) = (a = b)"
| "fl_eq PInf PInf = True"
| "fl_eq NInf NInf = True"
| "fl_eq x y = False"

definition fl_le :: "npfloat \<Rightarrow> npfloat \<Rightarrow> bool" where
  "fl_le x y = (fl_lt x y \<or> fl_eq x y)"

text \<open>Python's \<open>max(0, x)\<close>: the first argument stays unless the second is greater.\<close>

definition max0 :: "npfloat \<Rightarrow> npfloat" where
  "max0 x = (if fl_lt (Fin 0) x then x else Fin 0)"

text \<open>
  The exceptions the program can raise. \<open>OutOfDraws\<close> is not a Python exception: the
  random generator is modelled by the values it returns, handed to the program as
  arguments, and a run that needs more of them than it was given ends with it.
\<close>

datatype error =
  ValueError | IndexError | KeyError | TypeError | AttributeError | UnboundLocalError
  | OverflowError | OutOfDraws

definition bind_err :: "error + 'a \<Rightarrow> ('a \<Rightarrow> error + 'b) \<Rightarrow> error + 'b" where
  "bind_err m f = (case m of Inl e \<Rightarrow> Inl e | Inr x \<Rightarrow> f x)"

text \<open>\<open>xs[i]\<close> for an index that is not negative.\<close>

definition index :: "'a list \<Rightarrow> nat \<Rightarrow> error + 'a" where
  "index xs i = (if i < length xs then Inr (xs ! i) else Inl IndexError)"

text \<open>
  The numbers of the configuration (means, coefficients of variation) are Python floats,
  and Python's \<open>x ** 2\<close> on a Python float raises OverflowError where numpy would
  return \<open>inf\<close>: when the square is beyond the largest float64. (On a numpy float,
  \<open>fl_sq\<close>, it does not raise.)
\<close>

definition float_max :: real where
  "float_max = (2 - 1 / 2 ^ 52) * 2 ^ 1023"

definition py_sq :: "real \<Rightarrow> error + npfloat" where
  "py_sq x = (if float_max < x * x then Inl OverflowError else Inr (Fin (x * x)))"

text \<open>
  \<open>np.random.exponential(scale)\<close> and \<open>np.random.lognormal(mean, sigma)\<close> reject a
  negative scale; otherwise they return the generator's sample, here the argument
  \<open>x\<close>.
\<close>

definition np_random_exponential :: "npfloat \<Rightarrow> npfloat \<Rightarrow> error + npfloat" where
  "np_random_exponential scale x = (if fl_lt scale (Fin 0) then Inl ValueError else Inr x)"

definition np_random_lognormal :: "npfloat \<Rightarrow> npfloat \<Rightarrow> npfloat \<Rightarrow> error + npfloat" where
  "np_random_lognormal mean sd x = (if fl_lt sd (Fin 0) then Inl ValueError else Inr x)"

fun cumsum :: "real \<Rightarrow> real list \<Rightarrow> real list" where
  "cumsum acc [] = []"
| "cumsum acc (x # xs) = (acc + x) # cumsum (acc + x) xs"

text \<open>
  \<open>np.random.choice(range(n), p = p)\<close>: the arguments are checked (a population, as
  many probabilities, none negative, summing to one), then the outcome is the number of
  entries of the cumulative sum that the uniform sample \<open>u\<close> in \<open>[0, 1)\<close> has reached.
\<close>

definition np_random_choice :: "nat \<Rightarrow> real list \<Rightarrow> real \<Rightarrow> error + nat" where
  "np_random_choice n p u =
     (if n = 0 then Inl ValueError
      else if length p \<noteq> n then Inl ValueError
      else if list_ex (\<lambda>x. x < 0) p then Inl ValueError
      else if sum_list p \<noteq> 1 then Inl ValueError
      else Inr (length (takeWhile (\<lambda>c. c \<le> u) (cumsum 0 p))))"

section \<open>QNetwork.Source\<close>

text \<open>
  \<open>next_arrival\<close> is a \<open>heapq\<close> heap of pairs (time, stream). The heap is modelled by
  its contract: a list in ascending order of Python's tuple comparison, whose first
  element is the one \<open>heappop\<close> removes and \<open>heap[0]\<close> reads.
\<close>

definition arrival_lt :: "npfloat \<times> nat \<Rightarrow> npfloat \<times> nat \<Rightarrow> bool" where
  "arrival_lt x y =
     (if fl_eq (fst x) (fst y) then snd x < snd y else fl_lt (fst x) (fst y))"

fun heappush_arrival :: "npfloat \<times> nat \<Rightarrow> (npfloat \<times> nat) list \<Rightarrow> (npfloat \<times> nat) list" where
  "heappush_arrival x [] = [x]"
| "heappush_arrival x (y # ys) =
     (if arrival_lt x y then x # y # ys else y # heappush_arrival x ys)"

definition heapify_arrival :: "(npfloat \<times> nat) list \<Rightarrow> (npfloat \<times> nat) list" where
  "heapify_arrival xs = foldr heappush_arrival xs []"

text \<open>
  The class attribute \<open>Source.time\<close> is passed to \<open>action_out\<close> as the argument
  \<open>time\<close>. With the Exponential family the attributes \<open>rho\<close> and \<open>previous_arrival\<close>
  are never set and never read; the record holds 0 and the empty list for them.
\<close>

record source =
  number_of_sources :: nat
  number_of_nodes :: nat
  source_matrix :: "real list list"
  distribution :: string
  mu :: "npfloat list"
  sigma :: "npfloat list"
  rho :: real
  next_arrival :: "(npfloat \<times> nat) list"
  previous_arrival :: "npfloat list"
  time_next :: npfloat
  next_source :: nat
  next_job :: int
  next_destination :: nat

text \<open>Running a list of fallible computations in order, as a list comprehension does.\<close>

fun sequence_err :: "(error + 'a) list \<Rightarrow> error + 'a list" where
  "sequence_err [] = Inr []"
| "sequence_err (m # ms) =
     bind_err m (\<lambda>x. bind_err (sequence_err ms) (\<lambda>xs. Inr (x # xs)))"

text \<open>
  \<open>Source.__init__\<close>. \<open>xs\<close> holds the generator's first interarrival sample of each
  stream and \<open>u\<close> its uniform sample for the first destination.
\<close>

definition Source_init ::
  "real list \<Rightarrow> real list list \<Rightarrow> string \<Rightarrow> real list \<Rightarrow> real \<Rightarrow> npfloat list \<Rightarrow> real
     \<Rightarrow> error + source" where
  "Source_init arrival_means matrix family covs r xs u =
     (let nsrc = length arrival_means in
      bind_err (index matrix 0) (\<lambda>row0.
      bind_err
        (if family = ''Exponential'' then
           (let m = map Fin arrival_means in
            bind_err (sequence_err (map py_sq arrival_means)) (\<lambda>sg.
            bind_err (sequence_err (map (\<lambda>i.
                bind_err (if i < length xs then Inr (xs ! i) else Inl OutOfDraws) (\<lambda>x.
                bind_err (np_random_exponential (m ! i) x) (\<lambda>t. Inr (t, i)))) [0..<nsrc]))
              (\<lambda>arr. Inr (m, sg, 0, arr, []))))
         else if family = ''Lognormal'' then
           bind_err (sequence_err (map (\<lambda>x.
               bind_err (py_sq x) (\<lambda>x2. Inr (np_sqrt (np_log (fl_add (Fin 1) x2))))) covs))
             (\<lambda>sg.
            bind_err (sequence_err (map (\<lambda>i.
                bind_err (index sg i) (\<lambda>s.
                Inr (fl_sub (np_log (Fin (arrival_means ! i))) (fl_div (fl_sq s) (Fin 2)))))
                [0..<nsrc])) (\<lambda>m.
            bind_err (sequence_err (map (\<lambda>i.
                bind_err (if i < length xs then Inr (xs ! i) else Inl OutOfDraws) (\<lambda>x.
                bind_err (np_random_lognormal (m ! i) (sg ! i) x) (\<lambda>t. Inr (t, i))))
                [0..<nsrc])) (\<lambda>arr.
            Inr (m, sg, r, arr,
                 map (\<lambda>i. fl_div (fl_sub (np_log (fst (arr ! i))) (m ! i)) (sg ! i))
                   [0..<nsrc]))))
         else Inl AttributeError)
        (\<lambda>(m, sg, r', arr, prev).
      let heap = heapify_arrival arr in
      bind_err (index heap 0) (\<lambda>top.
      bind_err (index matrix (snd top)) (\<lambda>row.
      bind_err (np_random_choice (length row0) row u) (\<lambda>dest.
      Inr \<lparr>number_of_sources = nsrc, number_of_nodes = length row0,
           source_matrix = matrix, distribution = family, mu = m, sigma = sg, rho = r',
           next_arrival = heap, previous_arrival = prev, time_next = fst top,
           next_source = snd top, next_job = 0, next_destination = dest\<rparr>))))))"

text \<open>
  The first half of \<open>Source.action_out\<close>, "create next arrival time", in two steps. The
  interarrival increment of the stream that fires, with the updated \<open>previous_arrival\<close>:
  \<open>new_lognormal\<close> with the Lognormal family, the sample of \<open>np.random.exponential\<close>
  with the Exponential one. \<open>x\<close> is the generator's sample: the standard normal
  \<open>dummy_normal\<close> in the first case, the exponential interarrival time in the second.
  With any other family \<open>new_time\<close> is never bound and its first use raises.
\<close>

definition increment :: "npfloat \<Rightarrow> source \<Rightarrow> error + npfloat \<times> npfloat list" where
  "increment x S =
     (if source.distribution S = ''Lognormal'' then
        bind_err (index (previous_arrival S) (next_source S)) (\<lambda>last_normal_time.
        let dummy_normal = x in
        bind_err (index (source.sigma S) (next_source S)) (\<lambda>s.
        bind_err (index (source.mu S) (next_source S)) (\<lambda>m.
        let rho_normal =
              fl_div (np_log (fl_add (fl_mul (Fin (rho S))
                                        (fl_sub (np_exp (fl_sq s)) (Fin 1))) (Fin 1)))
                (fl_sq s);
            new_normal =
              fl_add (fl_mul rho_normal last_normal_time)
                (fl_mul (np_sqrt (fl_sub (Fin 1) (fl_sq rho_normal))) dummy_normal);
            new_lognormal = np_exp (fl_add m (fl_mul new_normal s))
        in Inr (new_lognormal, (previous_arrival S)[next_source S := new_normal]))))
      else if source.distribution S = ''Exponential'' then
        bind_err (index (source.mu S) (next_source S)) (\<lambda>m.
        bind_err (np_random_exponential m x) (\<lambda>e.
        Inr (e, previous_arrival S)))
      else Inl UnboundLocalError)"

text \<open>Then \<open>new_time = self.time + \<close> that increment.\<close>

definition create_next_arrival_time ::
  "npfloat \<Rightarrow> npfloat \<Rightarrow> source \<Rightarrow> error + npfloat \<times> npfloat list" where
  "create_next_arrival_time time x S =
     bind_err (increment x S) (\<lambda>(inc, prev). Inr (fl_add time inc, prev))"

text \<open>
  \<open>Source.action_out\<close>: the new arrival time, then "update arrival stream". \<open>u\<close> is the
  uniform sample of the destination choice.
\<close>

definition Source_action_out :: "npfloat \<Rightarrow> npfloat \<Rightarrow> real \<Rightarrow> source \<Rightarrow> error + source" where
  "Source_action_out time x u S =
     bind_err (create_next_arrival_time time x S) (\<lambda>(new_time, prev).
     bind_err (if next_arrival S = [] then Inl IndexError else Inr (tl (next_arrival S)))
       (\<lambda>popped.
     let heap = heappush_arrival (new_time, next_source S) popped in
     bind_err (index heap 0) (\<lambda>top.
     bind_err (index (source_matrix S) (snd top)) (\<lambda>row.
     bind_err (np_random_choice (source.number_of_nodes S) row u) (\<lambda>dest.
     Inr (S\<lparr>previous_arrival := prev, next_arrival := heap, source.time_next := fst top,
             next_source := snd top, source.next_job := source.next_job S + 1,
             source.next_destination := dest\<rparr>))))))"

section \<open>QNetwork.Queue\<close>

text \<open>
  A job identifier is what the event carried: an integer, or \<open>None\<close> (the value of a
  station's \<open>next_job\<close> before its first service). The class attribute \<open>Queue.time\<close> is
  passed to both operations as the argument \<open>time\<close>. With a family that is neither
  Exponential nor Lognormal the attributes \<open>mu\<close> and \<open>sigma\<close> are never set and never
  read; the record holds \<open>nan\<close> for them.
\<close>

type_synonym job_id = "int option"

record queue =
  p_out :: real
  destination :: "real list"
  number_of_nodes :: nat
  distribution :: string
  mu :: npfloat
  sigma :: npfloat
  in_system :: int
  all_jobs :: "job_id list"
  jobs_in_system :: "job_id list"
  next_job :: job_id
  time_next :: "npfloat option"
  arrival_times :: "npfloat list"
  service_times :: "npfloat list"
  departure_times :: "npfloat list"
  finish_time :: npfloat
  next_destination :: "nat option"

text \<open>
  \<open>Queue.__init__\<close>: no argument is checked and nothing is sampled. The one statement
  that can raise is the square of the mean (Exponential) or of the coefficient of
  variation (Lognormal).
\<close>

definition Queue_init :: "real \<Rightarrow> real list \<Rightarrow> string \<Rightarrow> real \<Rightarrow> error + queue" where
  "Queue_init service_mean dest family cov =
     bind_err
       (if family = ''Exponential'' then
          bind_err (py_sq service_mean) (\<lambda>m2. Inr (Fin service_mean, m2))
        else if family = ''Lognormal'' then
          bind_err (py_sq cov) (\<lambda>c2.
          let sg = np_sqrt (np_log (fl_add (Fin 1) c2)) in
          Inr (fl_sub (np_log (Fin service_mean)) (fl_div (fl_sq sg) (Fin 2)), sg))
        else Inr (NaN, NaN))
       (\<lambda>(m, sg).
     Inr \<lparr>p_out = 1 - sum_list dest, destination = dest, number_of_nodes = length dest,
          distribution = family, mu = m, sigma = sg,
          in_system = 0, all_jobs = [], jobs_in_system = [], next_job = None,
          time_next = Some (Fin 0), arrival_times = [], service_times = [],
          departure_times = [], finish_time = Fin 0, next_destination = None\<rparr>)"

text \<open>
  The two \<open>if\<close> statements that draw \<open>service_new\<close>; \<open>x\<close> is the generator's sample.
  With any other family the name stays unbound (\<open>None\<close> here) and its first use raises.
\<close>

definition service_new :: "queue \<Rightarrow> npfloat \<Rightarrow> error + npfloat option" where
  "service_new q x =
     (if queue.distribution q = ''Lognormal''
      then bind_err (np_random_lognormal (queue.mu q) (queue.sigma q) x) (\<lambda>s. Inr (Some s))
      else if queue.distribution q = ''Exponential''
      then bind_err (np_random_exponential (queue.mu q) x) (\<lambda>s. Inr (Some s))
      else Inr None)"

definition bound :: "npfloat option \<Rightarrow> error + npfloat" where
  "bound v = (case v of None \<Rightarrow> Inl UnboundLocalError | Some s \<Rightarrow> Inr s)"

definition Queue_action_in :: "npfloat \<Rightarrow> job_id \<Rightarrow> npfloat \<Rightarrow> queue \<Rightarrow> error + queue" where
  "Queue_action_in time job x q =
     (let q1 = q\<lparr>in_system := in_system q + 1, all_jobs := all_jobs q @ [job],
                 jobs_in_system := jobs_in_system q @ [job],
                 arrival_times := arrival_times q @ [time]\<rparr>
      in if in_system q1 > 1 then Inr (q1\<lparr>queue.time_next := None\<rparr>)
         else
           bind_err (service_new q1 x) (\<lambda>v.
           bind_err (index (jobs_in_system q1) 0) (\<lambda>j.
           bind_err (bound v) (\<lambda>s.
           Inr (q1\<lparr>queue.next_job := j, jobs_in_system := tl (jobs_in_system q1),
                   service_times := service_times q1 @ [s],
                   finish_time := fl_add time s,
                   queue.time_next := Some (fl_add time s)\<rparr>)))))"

definition Queue_action_out :: "npfloat \<Rightarrow> npfloat \<Rightarrow> real \<Rightarrow> queue \<Rightarrow> error + queue" where
  "Queue_action_out time x u q =
     (let q1 = q\<lparr>in_system := in_system q - 1\<rparr> in
      bind_err
        (if in_system q1 \<noteq> 0 then
           bind_err (service_new q1 x) (\<lambda>v.
           bind_err (index (jobs_in_system q1) 0) (\<lambda>j.
           bind_err (bound v) (\<lambda>s.
           Inr (q1\<lparr>queue.next_job := j, jobs_in_system := tl (jobs_in_system q1),
                   finish_time := fl_add time s,
                   service_times := service_times q1 @ [s],
                   queue.time_next := Some (fl_add time s)\<rparr>))))
         else Inr (q1\<lparr>queue.time_next := None\<rparr>))
        (\<lambda>q2.
      bind_err (np_random_choice (queue.number_of_nodes q2 + 1)
                  (destination q2 @ [p_out q2]) u) (\<lambda>dest.
      Inr (q2\<lparr>departure_times := departure_times q2 @ [time],
              queue.next_destination := Some dest\<rparr>))))"

section \<open>Simulator: the event queue\<close>

text \<open>
  An event is the tuple (time, job id, node) and the node is the string \<open>'Source'\<close> or
  a station's integer index.
\<close>

datatype node = SourceNode | StationNode nat

type_synonym event = "npfloat \<times> job_id \<times> node"

text \<open>
  \<open>e1 < e2\<close> on two such tuples, as Python compares tuples: the first position where
  the two differ (by \<open>==\<close>) decides, with \<open><\<close> on the two items found there, and \<open><\<close>
  between \<open>None\<close> and an integer or between a string and an integer raises TypeError.
\<close>

definition event_lt :: "event \<Rightarrow> event \<Rightarrow> error + bool" where
  "event_lt e1 e2 =
     (case (e1, e2) of ((t1, j1, n1), (t2, j2, n2)) \<Rightarrow>
        if \<not> fl_eq t1 t2 then Inr (fl_lt t1 t2)
        else if j1 \<noteq> j2 then
          (case (j1, j2) of (Some a, Some b) \<Rightarrow> Inr (a < b) | _ \<Rightarrow> Inl TypeError)
        else if n1 \<noteq> n2 then
          (case (n1, n2) of
             (StationNode a, StationNode b) \<Rightarrow> Inr (a < b)
           | _ \<Rightarrow> Inl TypeError)
        else Inr False)"

text \<open>
  The heap of events is modelled by its contract, like the heap of arrivals: a list in
  ascending order, \<open>heappush\<close> inserting before the first element that is greater,
  \<open>heappop\<close> removing the first.
\<close>

fun heappush :: "event \<Rightarrow> event list \<Rightarrow> error + event list" where
  "heappush e [] = Inr [e]"
| "heappush e (x # xs) =
     bind_err (event_lt e x) (\<lambda>b.
       if b then Inr (e # x # xs)
       else bind_err (heappush e xs) (\<lambda>ys. Inr (x # ys)))"

definition heappop :: "event list \<Rightarrow> error + event \<times> event list" where
  "heappop evs = (case evs of [] \<Rightarrow> Inl IndexError | e # rest \<Rightarrow> Inr (e, rest))"

text \<open>The truth value of \<open>time_next\<close> in \<open>if system[node].time_next:\<close>.\<close>

definition truthy :: "npfloat option \<Rightarrow> bool" where
  "truthy t = (case t of None \<Rightarrow> False | Some x \<Rightarrow> \<not> fl_eq x (Fin 0))"

text \<open>
  \<open>if system[node].time_next: heapq.heappush(events, (time_next, next_job, node))\<close>
\<close>

definition schedule :: "npfloat option \<Rightarrow> job_id \<Rightarrow> node \<Rightarrow> event list \<Rightarrow> error + event list" where
  "schedule t j nd evs =
     (case t of
        None \<Rightarrow> Inr evs
      | Some x \<Rightarrow> if truthy (Some x) then heappush (x, j, nd) evs else Inr evs)"

section \<open>Simulator.wrapper\<close>

text \<open>
  The state of \<open>wrapper\<close>: the dictionary \<open>system\<close> (its entry \<open>'Source'\<close> and its entries
  \<open>0 .. n - 1\<close>), the heap \<open>events\<close>, the counter \<open>jobs\<close>, and the clock, which is the value
  of the two class attributes \<open>Source.time\<close> and \<open>Queue.time\<close>, always assigned together.
\<close>

record sim =
  n :: nat
  Source :: source
  stations :: "queue list"
  events :: "event list"
  clock :: npfloat
  jobs :: int

text \<open>\<open>system[k]\<close> for a station index.\<close>

definition system :: "sim \<Rightarrow> nat \<Rightarrow> error + queue" where
  "system s k = (if k < length (stations s) then Inr (stations s ! k) else Inl KeyError)"

text \<open>\<open>min([len(system[i].departure_times) for i in range(n)])\<close>\<close>

definition min_departures :: "queue list \<Rightarrow> error + int" where
  "min_departures qs =
     (if qs = [] then Inl ValueError
      else Inr (min_list (map (\<lambda>q. int (length (departure_times q))) qs)))"

text \<open>
  What the generator returns during one iteration of the loop, in the order of use: the
  sample and the uniform destination sample of \<open>action_out\<close>, then the service sample of
  \<open>action_in\<close>. A sample that the iteration does not draw is not looked at.
\<close>

record draws =
  out_sample :: npfloat
  out_choice :: real
  in_sample :: npfloat

text \<open>The setup of \<open>wrapper\<close> before its loop.\<close>

definition wrapper_init ::
  "real list \<Rightarrow> real list list \<Rightarrow> real list list \<Rightarrow> real list \<Rightarrow> string \<Rightarrow> real list
     \<Rightarrow> real list \<Rightarrow> real \<Rightarrow> npfloat list \<Rightarrow> real \<Rightarrow> error + sim" where
  "wrapper_init arrival_means matrix transition_matrix service_means family
       arrival_covs service_covs arrival_rho xs u =
     bind_err (index transition_matrix 0) (\<lambda>row0.
     bind_err (Source_init arrival_means matrix family arrival_covs arrival_rho xs u) (\<lambda>S.
     bind_err (sequence_err (map (\<lambda>i.
         bind_err (index service_means i) (\<lambda>m.
         bind_err (index transition_matrix i) (\<lambda>d.
         bind_err (index service_covs i) (\<lambda>c.
         Queue_init m d family c)))) [0..<length row0])) (\<lambda>qs.
     Inr \<lparr>n = length row0, Source = S, stations = qs,
          events = [(source.time_next S, Some (source.next_job S), SourceNode)],
          clock = Fin 0, jobs = 0\<rparr>)))"

text \<open>
  \<open>dest = system[node].next_destination\<close> and the \<open>if dest != n:\<close> block that follows it.
\<close>

definition deliver :: "nat \<Rightarrow> job_id \<Rightarrow> npfloat \<Rightarrow> sim \<Rightarrow> error + sim" where
  "deliver dest job x s =
     (if dest \<noteq> n s then
        bind_err (system s dest) (\<lambda>q.
        bind_err (Queue_action_in (clock s) job x q) (\<lambda>q'.
        bind_err (schedule (queue.time_next q') (queue.next_job q') (StationNode dest)
                    (events s)) (\<lambda>evs.
        Inr (s\<lparr>stations := (stations s)[dest := q'], events := evs\<rparr>))))
      else Inr s)"

text \<open>One iteration of the \<open>while\<close> loop.\<close>

definition loop_body :: "draws \<Rightarrow> sim \<Rightarrow> error + sim" where
  "loop_body d s =
     bind_err (heappop (events s)) (\<lambda>((curr, job, nd), rest).
     let s1 = s\<lparr>events := rest, clock := curr\<rparr> in
     bind_err
       (case nd of
          SourceNode \<Rightarrow>
            bind_err (Source_action_out curr (out_sample d) (out_choice d) (Source s1))
              (\<lambda>S.
            bind_err (schedule (Some (source.time_next S)) (Some (source.next_job S))
                        SourceNode (events s1)) (\<lambda>evs.
            Inr (s1\<lparr>Source := S, events := evs\<rparr>, Some (source.next_destination S))))
        | StationNode k \<Rightarrow>
            bind_err (system s1 k) (\<lambda>q.
            bind_err (Queue_action_out curr (out_sample d) (out_choice d) q) (\<lambda>q'.
            bind_err (schedule (queue.time_next q') (queue.next_job q') (StationNode k)
                        (events s1)) (\<lambda>evs.
            Inr (s1\<lparr>stations := (stations s1)[k := q'], events := evs\<rparr>,
                 queue.next_destination q')))))
       (\<lambda>(s2, dest).
     bind_err (case dest of None \<Rightarrow> Inl KeyError | Some k \<Rightarrow> deliver k job (in_sample d) s2)
       (\<lambda>s3.
     bind_err (min_departures (stations s3)) (\<lambda>m.
     Inr (s3\<lparr>jobs := m\<rparr>)))))"

text \<open>
  The loop \<open>while jobs < final_jobs\<close>. It need not end; the list of draws is its fuel.
\<close>

fun wrapper_loop :: "int \<Rightarrow> draws list \<Rightarrow> sim \<Rightarrow> error + sim" where
  "wrapper_loop final_jobs [] s = (if jobs s < final_jobs then Inl OutOfDraws else Inr s)"
| "wrapper_loop final_jobs (d # ds) s =
     (if jobs s < final_jobs
      then bind_err (loop_body d s) (wrapper_loop final_jobs ds)
      else Inr s)"

text \<open>
  The states at the head of the loop that a run goes through, the first one included,
  for as long as the loop goes on, no step raises and the draws last.
\<close>

fun visited :: "int \<Rightarrow> draws list \<Rightarrow> sim \<Rightarrow> sim list" where
  "visited final_jobs [] s = [s]"
| "visited final_jobs (d # ds) s =
     (if jobs s < final_jobs
      then (case loop_body d s of
              Inl e \<Rightarrow> [s]
            | Inr s' \<Rightarrow> s # visited final_jobs ds s')
      else [s])"

section \<open>Simulator.extractor\<close>

record results =
  interarrival_times :: "npfloat list"
  res_service_times :: "npfloat list"
  waiting_times :: "npfloat list"
  job_ids :: "job_id list"

text \<open>
  The loop \<open>for i in range(1, len(res['service_times']))\<close>, over the indices left
  to do.
\<close>

fun waiting_loop ::
  "nat list \<Rightarrow> npfloat list \<Rightarrow> npfloat list \<Rightarrow> npfloat list \<Rightarrow> error + npfloat list" where
  "waiting_loop [] st ia w = Inr w"
| "waiting_loop (i # is) st ia w =
     bind_err (index ia i) (\<lambda>a.
       waiting_loop is st ia (w @ [max0 (fl_sub (fl_add (last w) (st ! (i - 1))) a)]))"

text \<open>The value of \<open>res['interarrival_times']\<close> for the arrival times \<open>arr\<close>.\<close>

definition interarrival :: "npfloat list \<Rightarrow> npfloat list" where
  "interarrival arr =
     (if arr \<noteq> []
      then hd arr # map (\<lambda>(i, j). fl_sub j i) (zip (butlast arr) (tl arr))
      else [])"

text \<open>\<open>extractor(system, k)\<close> for a station \<open>k\<close>, given the station \<open>system[k]\<close>.\<close>

definition extractor :: "queue \<Rightarrow> error + results" where
  "extractor q =
     (let ia = interarrival (arrival_times q)
      in if service_times q \<noteq> [] then
           bind_err (waiting_loop [1..<length (service_times q)] (service_times q) ia [Fin 0])
             (\<lambda>w.
           Inr \<lparr>interarrival_times = ia, res_service_times = service_times q,
                waiting_times = w, job_ids = all_jobs q\<rparr>)
         else Inr \<lparr>interarrival_times = ia, res_service_times = [], waiting_times = [],
                   job_ids = all_jobs q\<rparr>)"

section \<open>Pending events\<close>

text \<open>The number of events in the heap that carry the node \<open>nd\<close>.\<close>

definition pending :: "node \<Rightarrow> event list \<Rightarrow> nat" where
  "pending nd evs = length (filter (\<lambda>e. snd (snd e) = nd) evs)"

section \<open>Simulator.export: the truncation\<close>

text \<open>Python's \<open>xs[:k]\<close>.\<close>

definition slice_to :: "int \<Rightarrow> 'a list \<Rightarrow> 'a list" where
  "slice_to k xs = (if 0 \<le> k then take (nat k) xs else take (nat (int (length xs) + k)) xs)"

text \<open>
  \<open>extractor(S, i)['waiting_times'][:number_of_waiting_times]\<close>, what \<open>export\<close> keeps of
  station \<open>i\<close> after a run.
\<close>

definition export_waiting_times :: "int \<Rightarrow> sim \<Rightarrow> nat \<Rightarrow> error + npfloat list" where
  "export_waiting_times number_of_waiting_times S i =
     bind_err (system S i) (\<lambda>q.
     bind_err (extractor q) (\<lambda>res.
     Inr (slice_to number_of_waiting_times (waiting_times res))))"

section \<open>The termination counter\<close>

text \<open>
  What holds of \<open>jobs\<close> at the head of the loop: it is the least number of departures
  recorded at a station (and 0 in a network without stations, where no iteration ends).
\<close>

definition counter_ok :: "sim \<Rightarrow> bool" where
  "counter_ok s \<longleftrightarrow>
     (if stations s = [] then jobs s = 0
      else jobs s = Min ((\<lambda>q. int (length (departure_times q))) ` set (stations s)))"

section \<open>Job accounting\<close>

text \<open>
  What holds of station \<open>k\<close> and the heap between two operations: the count
  \<open>in_system\<close> is the number of recorded arrivals minus the number of recorded
  departures and is not negative; the heap holds at most one event of the station, and
  none when the station is empty; and one service time is recorded per departure, plus
  one for the job in service.
\<close>

definition station_ok :: "event list \<Rightarrow> nat \<Rightarrow> queue \<Rightarrow> bool" where
  "station_ok evs k q \<longleftrightarrow>
     in_system q = int (length (arrival_times q)) - int (length (departure_times q))
     \<and> 0 \<le> in_system q
     \<and> int (pending (StationNode k) evs) \<le> min 1 (in_system q)
     \<and> length (service_times q) =
         length (departure_times q) + (if 1 \<le> in_system q then 1 else 0)"

definition accounting :: "sim \<Rightarrow> bool" where
  "accounting s \<longleftrightarrow>
     length (stations s) = n s
     \<and> (\<forall>k < length (stations s). station_ok (events s) k (stations s ! k))"

section \<open>A station without its departure\<close>

text \<open>
  Station \<open>k\<close> holds a job and the heap holds no event for it.
\<close>

definition stuck :: "nat \<Rightarrow> sim \<Rightarrow> bool" where
  "stuck k s \<longleftrightarrow>
     k < length (stations s) \<and> 1 \<le> in_system (stations s ! k)
     \<and> pending (StationNode k) (events s) = 0"

section \<open>Time order\<close>

text \<open>A float that is finite and not below the real number \<open>c\<close>; a sample that is finite and not negative.\<close>

definition at_or_after :: "real \<Rightarrow> npfloat \<Rightarrow> bool" where
  "at_or_after c x = (case x of Fin t \<Rightarrow> c \<le> t | _ \<Rightarrow> False)"

definition fl_nonneg :: "npfloat \<Rightarrow> bool" where
  "fl_nonneg x = at_or_after 0 x"

text \<open>A list of times, all finite and not below \<open>c\<close>, in ascending order.\<close>

definition ordered_from :: "real \<Rightarrow> npfloat list \<Rightarrow> bool" where
  "ordered_from c ts \<longleftrightarrow> list_all (at_or_after c) ts \<and> sorted_wrt fl_le ts"

text \<open>
  The head of the source's heap of arrivals has the finite time \<open>t\<close>, and the rest of the
  heap is in order from there.
\<close>

definition source_head :: "npfloat \<Rightarrow> source \<Rightarrow> bool" where
  "source_head t S \<longleftrightarrow>
     (case next_arrival S of
        [] \<Rightarrow> False
      | a # rest \<Rightarrow>
          (case fst a of
             Fin t0 \<Rightarrow> t = Fin t0 \<and> ordered_from t0 (map fst rest)
           | _ \<Rightarrow> False))"

text \<open>
  What holds of the heap of events at the head of the loop in a run whose increments are
  not negative: the clock is finite, the events are in ascending order of time and none
  is before the clock, at most one of them is the source's, and the source's event
  carries the time at the head of the heap of arrivals.
\<close>

definition causal :: "sim \<Rightarrow> bool" where
  "causal s \<longleftrightarrow>
     (case clock s of Fin c \<Rightarrow> ordered_from c (map fst (events s)) | _ \<Rightarrow> False)
     \<and> pending SourceNode (events s) \<le> 1
     \<and> list_all (\<lambda>e. snd (snd e) \<noteq> SourceNode \<or> source_head (fst e) (Source s)) (events s)"

text \<open>
  The increments that the iteration with the draws \<open>d\<close> samples in the state \<open>s\<close> are
  not negative: the service time of \<open>action_in\<close>, and for \<open>action_out\<close> the
  interarrival increment when the event at the head of the heap is the source's, the
  service time when it is a station's. A draw that the iteration does not use is asked
  to be non-negative as well; it is a placeholder and any value will do for it.
\<close>

definition increments_nonneg :: "draws \<Rightarrow> sim \<Rightarrow> bool" where
  "increments_nonneg d s \<longleftrightarrow>
     fl_nonneg (in_sample d)
     \<and> (case events s of
          [] \<Rightarrow> True
        | (t0, job, nd) # rest \<Rightarrow>
            (case nd of
               SourceNode \<Rightarrow>
                 (case increment (out_sample d) (Source s) of
                    Inl e \<Rightarrow> True
                  | Inr (inc, prev) \<Rightarrow> fl_nonneg inc)
             | StationNode k \<Rightarrow> fl_nonneg (out_sample d)))"

text \<open>The same for every iteration of a run.\<close>

fun nonneg_run :: "int \<Rightarrow> draws list \<Rightarrow> sim \<Rightarrow> bool" where
  "nonneg_run final_jobs [] s = True"
| "nonneg_run final_jobs (d # ds) s =
     (if jobs s < final_jobs
      then increments_nonneg d s
           \<and> (case loop_body d s of Inl e \<Rightarrow> True | Inr s' \<Rightarrow> nonneg_run final_jobs ds s')
      else True)"

section \<open>Example inputs\<close>



text \<open>
  The draws of two iterations of a run with one stream and one station: the second
  interarrival time 2 and the first service time 1, then a departure that leaves the
  network.
\<close>

definition d1 :: draws where
  "d1 = \<lparr>out_sample = Fin 2, out_choice = 1/2, in_sample = Fin 1\<rparr>"

definition d2 :: draws where
  "d2 = \<lparr>out_sample = Fin 1, out_choice = 1/2, in_sample = Fin 1\<rparr>"

text \<open>The draws of an iteration whose service time is 0.0.\<close>

definition d0 :: draws where
  "d0 = \<lparr>out_sample = Fin 1, out_choice = 1/2, in_sample = Fin 0\<rparr>"

text \<open>
  The draws of a run through two stations in tandem: interarrival time 1 and service
  time 2 at station 0; interarrival time 10; service times 1 at station 0 and 5 at
  station 1; then two departures, the second one starting a service of length 1.
\<close>

definition tandem1 :: draws where
  "tandem1 = \<lparr>out_sample = Fin 1, out_choice = 1/2, in_sample = Fin 2\<rparr>"

definition tandem2 :: draws where
  "tandem2 = \<lparr>out_sample = Fin 10, out_choice = 1/2, in_sample = Fin 1\<rparr>"

definition tandem3 :: draws where
  "tandem3 = \<lparr>out_sample = Fin 1, out_choice = 1/2, in_sample = Fin 5\<rparr>"

definition tandem :: "draws list" where
  "tandem = [tandem1, tandem2, tandem3, tandem1, tandem1]"

section \<open>Facts about the numbers\<close>

lemma float_max_ge_one: "1 \<le> float_max"
proof -
  have "(1::real) \<le> 2 - 1 / 2 ^ 52" by simp
  moreover have "(1::real) \<le> 2 ^ 1023" by (rule one_le_power) simp
  ultimately have "(1::real) * 1 \<le> (2 - 1 / 2 ^ 52) * 2 ^ 1023"
    by (intro mult_mono) simp_all
  then show ?thesis by (simp add: float_max_def)
qed

lemma py_sq_small [simp]: "x * x \<le> 1 \<Longrightarrow> py_sq x = Inr (Fin (x * x))"
  using float_max_ge_one by (simp add: py_sq_def)



lemma fl_add_NaN_right [simp]: "fl_add x NaN = NaN"
  by (cases x) auto

lemma fl_mul_NaN_right [simp]: "fl_mul x NaN = NaN"
  by (cases x) auto

lemma max0_nonneg: "fl_le (Fin 0) (max0 x)"
  by (simp add: max0_def fl_le_def)




section \<open>The steps of one iteration\<close>

lemma bind_err_Inr: "bind_err m f = Inr y \<longleftrightarrow> (\<exists>x. m = Inr x \<and> f x = Inr y)"
  by (cases m) (simp_all add: bind_err_def)

lemma fl_eq_Fin_iff: "fl_eq x (Fin a) \<longleftrightarrow> x = Fin a"
  by (cases x) auto

lemma truthy_iff: "truthy t \<longleftrightarrow> t \<noteq> None \<and> t \<noteq> Some (Fin 0)"
  by (cases t) (simp_all add: truthy_def fl_eq_Fin_iff)

lemma heappush_pending:
  "heappush e evs = Inr evs' \<Longrightarrow>
   pending nd evs' = pending nd evs + (if snd (snd e) = nd then 1 else 0)"
proof (induction evs arbitrary: evs')
  case Nil
  then show ?case by (auto simp: pending_def)
next
  case (Cons x xs)
  from Cons.prems obtain b where b: "event_lt e x = Inr b"
    and r: "(if b then Inr (e # x # xs) else bind_err (heappush e xs) (\<lambda>ys. Inr (x # ys))) = Inr evs'"
    by (auto simp: bind_err_Inr)
  show ?case
  proof (cases b)
    case True
    then show ?thesis using r by (auto simp: pending_def)
  next
    case False
    then obtain ys where ys: "heappush e xs = Inr ys" "evs' = x # ys"
      using r by (auto simp: bind_err_Inr)
    from Cons.IH [OF ys(1)] show ?thesis using ys(2) by (simp add: pending_def)
  qed
qed

lemma heappush_count:
  "heappush e evs = Inr evs' \<Longrightarrow>
   count_list evs' y = count_list evs y + (if y = e then 1 else 0)"
proof (induction evs arbitrary: evs')
  case Nil
  then show ?case by auto
next
  case (Cons x xs)
  from Cons.prems obtain b where b: "event_lt e x = Inr b"
    and r: "(if b then Inr (e # x # xs) else bind_err (heappush e xs) (\<lambda>ys. Inr (x # ys))) = Inr evs'"
    by (auto simp: bind_err_Inr)
  show ?case
  proof (cases b)
    case True
    then show ?thesis using r by auto
  next
    case False
    then obtain ys where ys: "heappush e xs = Inr ys" "evs' = x # ys"
      using r by (auto simp: bind_err_Inr)
    from Cons.IH [OF ys(1)] show ?thesis using ys(2) by simp
  qed
qed

lemma schedule_cases:
  assumes "schedule t j nd evs = Inr evs'"
  obtains (skip) "\<not> truthy t" "evs' = evs"
  | (push) x where "t = Some x" "x \<noteq> Fin 0" "heappush (x, j, nd) evs = Inr evs'"
  using assms
  by (cases t) (auto simp: schedule_def truthy_iff split: if_splits)

lemma schedule_pending:
  assumes "schedule t j nd evs = Inr evs'"
  shows "pending nd' evs' = pending nd' evs + (if truthy t \<and> nd = nd' then 1 else 0)"
  using assms
proof (cases rule: schedule_cases)
  case skip
  then show ?thesis by simp
next
  case (push x)
  then show ?thesis using heappush_pending [OF push(3), of nd'] by (simp add: truthy_iff)
qed


lemma service_new_cong:
  "queue.distribution q1 = queue.distribution q \<Longrightarrow> queue.mu q1 = queue.mu q \<Longrightarrow>
   queue.sigma q1 = queue.sigma q \<Longrightarrow> service_new q1 x = service_new q x"
  by (simp add: service_new_def)

lemma Queue_action_in_cases:
  assumes "Queue_action_in t j x q = Inr q'"
  obtains (busy) "1 \<le> in_system q"
      "q' = q\<lparr>in_system := in_system q + 1, all_jobs := all_jobs q @ [j],
               jobs_in_system := jobs_in_system q @ [j],
               arrival_times := arrival_times q @ [t], queue.time_next := None\<rparr>"
  | (idle) sv where "in_system q \<le> 0" "service_new q x = Inr (Some sv)"
      "q' = q\<lparr>in_system := in_system q + 1, all_jobs := all_jobs q @ [j],
               jobs_in_system := tl (jobs_in_system q @ [j]),
               arrival_times := arrival_times q @ [t],
               queue.next_job := hd (jobs_in_system q @ [j]),
               service_times := service_times q @ [sv],
               finish_time := fl_add t sv, queue.time_next := Some (fl_add t sv)\<rparr>"
proof (cases "1 \<le> in_system q")
  case True
  then show ?thesis using assms busy by (simp add: Queue_action_in_def Let_def)
next
  case False
  then have i: "in_system q \<le> 0" by simp
  from assms False obtain v jj sv where
      v: "service_new (q\<lparr>in_system := in_system q + 1, all_jobs := all_jobs q @ [j],
               jobs_in_system := jobs_in_system q @ [j],
               arrival_times := arrival_times q @ [t]\<rparr>) x = Inr v"
      and jj: "index (jobs_in_system q @ [j]) 0 = Inr jj" and sv: "bound v = Inr sv"
      and q': "q' = q\<lparr>in_system := in_system q + 1, all_jobs := all_jobs q @ [j],
               jobs_in_system := tl (jobs_in_system q @ [j]),
               arrival_times := arrival_times q @ [t],
               queue.next_job := jj,
               service_times := service_times q @ [sv],
               finish_time := fl_add t sv, queue.time_next := Some (fl_add t sv)\<rparr>"
    by (auto simp: Queue_action_in_def Let_def bind_err_Inr)
  have "v = Some sv" using sv by (cases v) (simp_all add: bound_def)
  then have a: "service_new q x = Inr (Some sv)"
    using v service_new_cong [of "q\<lparr>in_system := in_system q + 1, all_jobs := all_jobs q @ [j],
               jobs_in_system := jobs_in_system q @ [j],
               arrival_times := arrival_times q @ [t]\<rparr>" q x]
    by simp
  have "jj = hd (jobs_in_system q @ [j])" using jj by (simp add: index_def hd_conv_nth)
  then show ?thesis using idle [OF i a] q' by simp
qed

lemma Queue_action_out_cases:
  assumes "Queue_action_out t x u q = Inr q'"
  obtains (empties) dest where "in_system q = 1"
      "q' = q\<lparr>in_system := 0, queue.time_next := None,
               departure_times := departure_times q @ [t],
               queue.next_destination := Some dest\<rparr>"
  | (serves) sv jj dest where "in_system q \<noteq> 1" "service_new q x = Inr (Some sv)"
      "q' = q\<lparr>in_system := in_system q - 1, queue.next_job := jj,
               jobs_in_system := tl (jobs_in_system q),
               finish_time := fl_add t sv, service_times := service_times q @ [sv],
               queue.time_next := Some (fl_add t sv),
               departure_times := departure_times q @ [t],
               queue.next_destination := Some dest\<rparr>"
proof (cases "in_system q = 1")
  case True
  then show ?thesis using assms empties
    by (auto simp: Queue_action_out_def Let_def bind_err_Inr)
next
  case False
  from assms False obtain v jj sv dest where
      v: "service_new (q\<lparr>in_system := in_system q - 1\<rparr>) x = Inr v"
      and sv: "bound v = Inr sv"
      and q': "q' = q\<lparr>in_system := in_system q - 1, queue.next_job := jj,
               jobs_in_system := tl (jobs_in_system q),
               finish_time := fl_add t sv, service_times := service_times q @ [sv],
               queue.time_next := Some (fl_add t sv),
               departure_times := departure_times q @ [t],
               queue.next_destination := Some dest\<rparr>"
    by (auto simp: Queue_action_out_def Let_def bind_err_Inr)
  have "v = Some sv" using sv by (cases v) (simp_all add: bound_def)
  then have a: "service_new q x = Inr (Some sv)"
    using v service_new_cong [of "q\<lparr>in_system := in_system q - 1\<rparr>" q x] by simp
  show ?thesis using serves [OF False a] q' by simp
qed

lemma deliver_cases:
  assumes "deliver dest job x s = Inr s'"
  obtains (exit) "dest = n s" "s' = s"
  | (arrive) q' evs where "dest \<noteq> n s" "dest < length (stations s)"
      "Queue_action_in (clock s) job x (stations s ! dest) = Inr q'"
      "schedule (queue.time_next q') (queue.next_job q') (StationNode dest) (events s) = Inr evs"
      "s' = s\<lparr>stations := (stations s)[dest := q'], events := evs\<rparr>"
  using assms
  by (auto simp: deliver_def bind_err_Inr system_def split: if_splits)

lemma loop_body_cases:
  assumes "loop_body d s = Inr s'"
  obtains (source) curr job rest S evs s3 m where
      "events s = (curr, job, SourceNode) # rest"
      "Source_action_out curr (out_sample d) (out_choice d) (Source s) = Inr S"
      "schedule (Some (source.time_next S)) (Some (source.next_job S)) SourceNode rest = Inr evs"
      "deliver (source.next_destination S) job (in_sample d)
         (s\<lparr>clock := curr, Source := S, events := evs\<rparr>) = Inr s3"
      "min_departures (stations s3) = Inr m" "s' = s3\<lparr>jobs := m\<rparr>"
  | (station) curr job k rest q' evs dest s3 m where
      "events s = (curr, job, StationNode k) # rest" "k < length (stations s)"
      "Queue_action_out curr (out_sample d) (out_choice d) (stations s ! k) = Inr q'"
      "schedule (queue.time_next q') (queue.next_job q') (StationNode k) rest = Inr evs"
      "queue.next_destination q' = Some dest"
      "deliver dest job (in_sample d)
         (s\<lparr>clock := curr, stations := (stations s)[k := q'], events := evs\<rparr>) = Inr s3"
      "min_departures (stations s3) = Inr m" "s' = s3\<lparr>jobs := m\<rparr>"
proof -
  from assms obtain curr job nd rest where ev: "events s = (curr, job, nd) # rest"
    by (cases "events s") (auto simp: loop_body_def heappop_def bind_err_def)
  show ?thesis
  proof (cases nd)
    case SourceNode
    with assms ev show ?thesis
      by (auto simp: loop_body_def heappop_def bind_err_Inr Let_def intro: source
          split: option.splits)
  next
    case (StationNode k)
    with assms ev show ?thesis
      by (auto simp: loop_body_def heappop_def bind_err_Inr Let_def system_def
          intro: station split: option.splits if_splits)
  qed
qed

section \<open>The comparison of events\<close>



section \<open>Construction of a station\<close>











section \<open>The correlated lognormal increment\<close>






section \<open>The waiting times\<close>

lemma interarrival_length: "length (interarrival arr) = length arr"
  by (cases arr) (auto simp: interarrival_def)

lemma interarrival_nth:
  "1 \<le> k \<Longrightarrow> k < length arr \<Longrightarrow> interarrival arr ! k = fl_sub (arr ! k) (arr ! (k - 1))"
  by (cases arr; cases k) (auto simp: interarrival_def nth_butlast nth_Cons')

text \<open>
  The loop from index \<open>k\<close> on: it does not raise while the interarrival times last, keeps
  what it was given and appends one Lindley step per index.
\<close>

lemma waiting_loop_lindley:
  "length w = k \<Longrightarrow> 1 \<le> k \<Longrightarrow> m \<le> length ia \<Longrightarrow>
   \<exists>w'. waiting_loop [k..<m] st ia w = Inr w' \<and> length w' = max k m \<and> take k w' = w
     \<and> (\<forall>i. k \<le> i \<and> i < m \<longrightarrow>
           w' ! i = max0 (fl_sub (fl_add (w' ! (i - 1)) (st ! (i - 1))) (ia ! i)))"
proof (induction "m - k" arbitrary: k w)
  case 0
  then show ?case by (auto simp: max_def)
next
  case (Suc d)
  then have km: "k < m" by simp
  let ?x = "max0 (fl_sub (fl_add (last w) (st ! (k - 1))) (ia ! k))"
  have len: "length (w @ [?x]) = Suc k" using Suc.prems by simp
  have d: "d = m - Suc k" using Suc.hyps by simp
  from Suc.hyps(1) [OF d len _ Suc.prems(3)]
  obtain w' where w': "waiting_loop [Suc k..<m] st ia (w @ [?x]) = Inr w'"
    "length w' = max (Suc k) m" "take (Suc k) w' = w @ [?x]"
    "\<forall>i. Suc k \<le> i \<and> i < m \<longrightarrow>
       w' ! i = max0 (fl_sub (fl_add (w' ! (i - 1)) (st ! (i - 1))) (ia ! i))"
    by auto
  have run: "waiting_loop [k..<m] st ia w = Inr w'"
    using km Suc.prems(3) w'(1) by (simp add: upt_conv_Cons bind_err_def index_def)
  have tk: "take k w' = w"
  proof -
    have "take k (take (Suc k) w') = take k (w @ [?x])" using w'(3) by simp
    then show ?thesis using Suc.prems(1) by (simp add: min_def)
  qed
  have wne: "w \<noteq> []" using Suc.prems by auto
  have atk: "w' ! k = ?x"
  proof -
    have "w' ! k = take (Suc k) w' ! k" by simp
    also have "\<dots> = (w @ [?x]) ! k" using w'(3) by simp
    also have "\<dots> = ?x" using Suc.prems(1) by (simp add: nth_append)
    finally show ?thesis .
  qed
  have atk1: "w' ! (k - 1) = last w"
  proof -
    have "w' ! (k - 1) = take k w' ! (k - 1)" using Suc.prems(2) by simp
    also have "\<dots> = w ! (k - 1)" using tk by simp
    also have "\<dots> = last w" using wne Suc.prems(1) by (simp add: last_conv_nth)
    finally show ?thesis .
  qed
  have rec: "\<forall>i. k \<le> i \<and> i < m \<longrightarrow>
       w' ! i = max0 (fl_sub (fl_add (w' ! (i - 1)) (st ! (i - 1))) (ia ! i))"
  proof (intro allI impI)
    fix i assume i: "k \<le> i \<and> i < m"
    show "w' ! i = max0 (fl_sub (fl_add (w' ! (i - 1)) (st ! (i - 1))) (ia ! i))"
    proof (cases "i = k")
      case True
      then show ?thesis using atk atk1 by simp
    next
      case False
      then have "Suc k \<le> i \<and> i < m" using i by simp
      then show ?thesis using w'(4) by blast
    qed
  qed
  have "length w' = max k m" using w'(2) km by simp
  then show ?case using run tk rec by blast
qed

text \<open>What \<open>extractor\<close> returns for a station with no more services than arrivals.\<close>

lemma extractor_spec:
  assumes "length (service_times q) \<le> length (arrival_times q)"
  shows "\<exists>r. extractor q = Inr r
     \<and> res_service_times r = service_times q
     \<and> length (interarrival_times r) = length (arrival_times q)
     \<and> (\<forall>k. 1 \<le> k \<and> k < length (arrival_times q) \<longrightarrow>
           interarrival_times r ! k = fl_sub (arrival_times q ! k) (arrival_times q ! (k - 1)))
     \<and> length (waiting_times r) = length (service_times q)
     \<and> (service_times q \<noteq> [] \<longrightarrow> waiting_times r ! 0 = Fin 0)
     \<and> (\<forall>k. 1 \<le> k \<and> k < length (service_times q) \<longrightarrow>
           waiting_times r ! k =
             max0 (fl_sub (fl_add (waiting_times r ! (k - 1)) (service_times q ! (k - 1)))
                     (interarrival_times r ! k)))
     \<and> (\<forall>k < length (waiting_times r). fl_le (Fin 0) (waiting_times r ! k))"
proof (cases "service_times q = []")
  case True
  then show ?thesis
    using interarrival_length [of "arrival_times q"] interarrival_nth [of _ "arrival_times q"]
    by (simp add: extractor_def Let_def)
next
  case False
  let ?st = "service_times q" and ?ia = "interarrival (arrival_times q)"
  have k1: "1 \<le> length ?st" using False by (cases ?st) auto
  have "length ?st \<le> length ?ia" using assms by (simp add: interarrival_length)
  from waiting_loop_lindley [of "[Fin 0]" 1 "length ?st" ?ia ?st, OF _ _ this]
  obtain w where w: "waiting_loop [1..<length ?st] ?st ?ia [Fin 0] = Inr w"
    "length w = length ?st" "take 1 w = [Fin 0]"
    "\<forall>i. 1 \<le> i \<and> i < length ?st \<longrightarrow>
       w ! i = max0 (fl_sub (fl_add (w ! (i - 1)) (?st ! (i - 1))) (?ia ! i))"
    using k1 by (auto simp: max_def)
  have w0: "w ! 0 = Fin 0"
    using w(3) by (cases w) auto
  have nonneg: "\<forall>k < length w. fl_le (Fin 0) (w ! k)"
  proof (intro allI impI)
    fix k assume k: "k < length w"
    show "fl_le (Fin 0) (w ! k)"
    proof (cases k)
      case 0
      then show ?thesis using w0 by (simp add: fl_le_def)
    next
      case (Suc j)
      then have "w ! k = max0 (fl_sub (fl_add (w ! (k - 1)) (?st ! (k - 1))) (?ia ! k))"
        using w(4) k w(2) by simp
      then show ?thesis by (simp add: max0_nonneg)
    qed
  qed
  have ex: "extractor q = Inr \<lparr>interarrival_times = ?ia, res_service_times = ?st,
                waiting_times = w, job_ids = all_jobs q\<rparr>"
    using False w(1) by (simp add: extractor_def Let_def bind_err_def)
  show ?thesis
    using ex w(2) w0 w(4) nonneg
      interarrival_length [of "arrival_times q"] interarrival_nth [of _ "arrival_times q"]
    by simp
qed








section \<open>Runs, step by step\<close>

lemmas eval_defs = wrapper_init_def Source_init_def Queue_init_def bind_err_def index_def
  np_random_exponential_def np_random_choice_def heapify_arrival_def arrival_lt_def
  fl_sq_def Let_def loop_body_def heappop_def Source_action_out_def increment_def
  create_next_arrival_time_def schedule_def truthy_def event_lt_def deliver_def system_def
  Queue_action_in_def Queue_action_out_def service_new_def bound_def min_departures_def

text \<open>
  C1 (the code, where it departs from the claim). Two streams, two stations; stream 0 enters at
  station 0 and stream 1 at station 1, each with probability 1. The generator gives
  stream 0 its first arrival at time 1 and stream 1 at time 2. After construction the
  stream due is 0 and the destination sampled for its arrival is station 0. The first
  iteration fires that arrival, job 0: \<open>action_out\<close> makes stream 1 the next due and
  samples station 1 from row 1 for it, and the loop, reading \<open>next_destination\<close> only
  then, delivers job 0 to station 1. Station 0 never sees it.
\<close>

theorem source_arrival_delivered_to_next_destination:
  "\<exists>s0 s1. wrapper_init [1, 1] [[1, 0], [0, 1]] [[0, 0], [0, 0]] [1, 1] ''Exponential''
              [1, 1] [1, 1] 0 [Fin 1, Fin 2] (1/2) = Inr s0
     \<and> events s0 = [(Fin 1, Some 0, SourceNode)]
     \<and> next_source (Source s0) = 0 \<and> source.next_destination (Source s0) = 0
     \<and> loop_body \<lparr>out_sample = Fin 5, out_choice = 1/2, in_sample = Fin 1\<rparr> s0 = Inr s1
     \<and> next_source (Source s1) = 1 \<and> source.next_destination (Source s1) = 1
     \<and> all_jobs (stations s1 ! 0) = [] \<and> all_jobs (stations s1 ! 1) = [Some 0]"
  by (simp add: eval_defs upt_conv_Cons)

text \<open>
  C3 (the code, where it departs from the claim). One stream, one station. The generator returns
  0.0 as the first interarrival time and 0.0 as the first service time. The first
  iteration delivers job 0 to the idle station at clock 0; the station puts it in
  service with finish time 0.0, which the loop's test \<open>if system[dest].time_next:\<close>
  takes for "no event". Afterwards the station holds one job and the heap holds no
  departure for it, only the next arrival.
\<close>

theorem zero_finish_time_schedules_no_departure:
  "\<exists>s0 s1. wrapper_init [1] [[1]] [[0]] [1] ''Exponential'' [1] [1] 0 [Fin 0] (1/2) = Inr s0
     \<and> loop_body \<lparr>out_sample = Fin 1, out_choice = 1/2, in_sample = Fin 0\<rparr> s0 = Inr s1
     \<and> in_system (stations s1 ! 0) = 1
     \<and> queue.next_job (stations s1 ! 0) = Some 0
     \<and> queue.time_next (stations s1 ! 0) = Some (Fin 0)
     \<and> events s1 = [(Fin 1, Some 1, SourceNode)]
     \<and> pending (StationNode 0) (events s1) = 0"
  by (simp add: eval_defs upt_conv_Cons pending_def)

text \<open>
  A run of two iterations: job 0 arrives at time 1 at the only station, is served for
  1, and departs at time 2 out of the network.
\<close>

lemma example_steps:
  "\<exists>s0 s1 s2. wrapper_init [1] [[1]] [[0]] [1] ''Exponential'' [1] [1] 0 [Fin 1] (1/2) = Inr s0
     \<and> loop_body d1 s0 = Inr s1 \<and> loop_body d2 s1 = Inr s2
     \<and> jobs s0 = 0 \<and> jobs s1 = 0 \<and> jobs s2 = 1
     \<and> clock s0 = Fin 0 \<and> clock s1 = Fin 1 \<and> clock s2 = Fin 2
     \<and> n s1 = 1 \<and> n s2 = 1 \<and> length (stations s2) = 1
     \<and> in_system (stations s1 ! 0) = 1 \<and> in_system (stations s2 ! 0) = 0
     \<and> events s0 = [(Fin 1, Some 0, SourceNode)]
     \<and> events s1 = [(Fin 2, Some 0, StationNode 0), (Fin 3, Some 1, SourceNode)]
     \<and> events s2 = [(Fin 3, Some 1, SourceNode)]
     \<and> departure_times (stations s2 ! 0) = [Fin 2]
     \<and> increments_nonneg d1 s0 \<and> increments_nonneg d2 s1"
  by (simp add: d1_def d2_def eval_defs upt_conv_Cons increments_nonneg_def fl_nonneg_def
      at_or_after_def)

lemma example_run:
  "\<exists>s0 s1 s2. wrapper_init [1] [[1]] [[0]] [1] ''Exponential'' [1] [1] 0 [Fin 1] (1/2) = Inr s0
     \<and> loop_body d1 s0 = Inr s1 \<and> loop_body d2 s1 = Inr s2
     \<and> visited 1 [d1, d2] s0 = [s0, s1, s2] \<and> wrapper_loop 1 [d1, d2] s0 = Inr s2
     \<and> jobs s0 = 0 \<and> jobs s1 = 0 \<and> jobs s2 = 1
     \<and> clock s0 = Fin 0 \<and> clock s1 = Fin 1 \<and> clock s2 = Fin 2
     \<and> n s1 = 1 \<and> n s2 = 1 \<and> length (stations s2) = 1
     \<and> in_system (stations s1 ! 0) = 1 \<and> in_system (stations s2 ! 0) = 0
     \<and> events s0 = [(Fin 1, Some 0, SourceNode)]
     \<and> events s1 = [(Fin 2, Some 0, StationNode 0), (Fin 3, Some 1, SourceNode)]
     \<and> events s2 = [(Fin 3, Some 1, SourceNode)]
     \<and> departure_times (stations s2 ! 0) = [Fin 2]
     \<and> increments_nonneg d1 s0 \<and> increments_nonneg d2 s1"
proof -
  from example_steps obtain s0 s1 s2 where
    r: "wrapper_init [1] [[1]] [[0]] [1] ''Exponential'' [1] [1] 0 [Fin 1] (1/2) = Inr s0
     \<and> loop_body d1 s0 = Inr s1 \<and> loop_body d2 s1 = Inr s2
     \<and> jobs s0 = 0 \<and> jobs s1 = 0 \<and> jobs s2 = 1
     \<and> clock s0 = Fin 0 \<and> clock s1 = Fin 1 \<and> clock s2 = Fin 2
     \<and> n s1 = 1 \<and> n s2 = 1 \<and> length (stations s2) = 1
     \<and> in_system (stations s1 ! 0) = 1 \<and> in_system (stations s2 ! 0) = 0
     \<and> events s0 = [(Fin 1, Some 0, SourceNode)]
     \<and> events s1 = [(Fin 2, Some 0, StationNode 0), (Fin 3, Some 1, SourceNode)]
     \<and> events s2 = [(Fin 3, Some 1, SourceNode)]
     \<and> departure_times (stations s2 ! 0) = [Fin 2]
     \<and> increments_nonneg d1 s0 \<and> increments_nonneg d2 s1"
    by blast
  then have "visited 1 [d1, d2] s0 = [s0, s1, s2]" "wrapper_loop 1 [d1, d2] s0 = Inr s2"
    by (simp_all add: bind_err_def)
  with r show ?thesis by blast
qed

text \<open>
  A run of five iterations through two stations in tandem, with target 1: jobs 0 and 1
  arrive at station 0 at times 1 and 2 and leave it at times 3 and 4 for station 1,
  which job 0 leaves at time 8. Station 0 has then recorded two departures, station 1
  one.
\<close>

lemma tandem_steps:
  "\<exists>s0 s1 s2 s3 s4 s5.
     wrapper_init [1] [[1, 0]] [[0, 1], [0, 0]] [1, 1] ''Exponential'' [1] [1, 1] 0 [Fin 1] (1/2)
       = Inr s0
     \<and> loop_body tandem1 s0 = Inr s1 \<and> loop_body tandem2 s1 = Inr s2 \<and> loop_body tandem3 s2 = Inr s3
     \<and> loop_body tandem1 s3 = Inr s4 \<and> loop_body tandem1 s4 = Inr s5
     \<and> jobs s0 = 0 \<and> jobs s1 = 0 \<and> jobs s2 = 0 \<and> jobs s3 = 0 \<and> jobs s4 = 0 \<and> jobs s5 = 1
     \<and> n s5 = 2 \<and> length (stations s5) = 2
     \<and> departure_times (stations s3 ! 0) = [Fin 3]
     \<and> departure_times (stations s3 ! 1) = []
     \<and> departure_times (stations s4 ! 0) = [Fin 3, Fin 4]
     \<and> departure_times (stations s5 ! 0) = [Fin 3, Fin 4]
     \<and> departure_times (stations s5 ! 1) = [Fin 8]
     \<and> arrival_times (stations s5 ! 0) = [Fin 1, Fin 2]
     \<and> service_times (stations s5 ! 0) = [Fin 2, Fin 1]
     \<and> arrival_times (stations s5 ! 1) = [Fin 3, Fin 4]
     \<and> service_times (stations s5 ! 1) = [Fin 5, Fin 1]
     \<and> (\<exists>res. extractor (stations s5 ! 0) = Inr res \<and> waiting_times res = [Fin 0, Fin 1])
     \<and> (\<exists>res. extractor (stations s5 ! 1) = Inr res \<and> waiting_times res = [Fin 0, Fin 4])"
  by (simp add: tandem1_def tandem2_def tandem3_def eval_defs upt_conv_Cons extractor_def interarrival_def
      max0_def fl_sub_def)

section \<open>The invariant of job accounting\<close>

lemma pending_Cons:
  "pending nd (e # evs) = pending nd evs + (if snd (snd e) = nd then 1 else 0)"
  by (simp add: pending_def)

lemma station_ok_out:
  assumes ok: "station_ok (e # rest) k q" and e: "snd (snd e) = StationNode k"
    and out: "Queue_action_out t x u q = Inr q'"
    and sch: "schedule (queue.time_next q') j (StationNode k) rest = Inr evs"
  shows "station_ok evs k q'"
proof -
  from ok e have p0: "pending (StationNode k) rest = 0" and busy: "1 \<le> in_system q"
    by (auto simp: station_ok_def pending_Cons)
  from out show ?thesis
  proof (cases rule: Queue_action_out_cases)
    case (empties dest)
    then have "\<not> truthy (queue.time_next q')" by (simp add: truthy_def)
    then have "pending (StationNode k) evs = 0"
      using schedule_pending [OF sch, of "StationNode k"] p0 by simp
    then show ?thesis using ok empties by (simp add: station_ok_def)
  next
    case (serves sv jj dest)
    have "pending (StationNode k) evs \<le> 1"
      using schedule_pending [OF sch, of "StationNode k"] p0 by simp
    then show ?thesis using ok serves busy by (simp add: station_ok_def)
  qed
qed

lemma station_ok_in:
  assumes ok: "station_ok evs k q"
    and inn: "Queue_action_in t job x q = Inr q'"
    and sch: "schedule (queue.time_next q') j (StationNode k) evs = Inr evs'"
  shows "station_ok evs' k q'"
  using inn
proof (cases rule: Queue_action_in_cases)
  case busy
  then have "\<not> truthy (queue.time_next q')" by (simp add: truthy_def)
  then have "pending (StationNode k) evs' = pending (StationNode k) evs"
    using schedule_pending [OF sch, of "StationNode k"] by simp
  then show ?thesis using ok busy by (simp add: station_ok_def)
next
  case (idle sv)
  with ok have z: "in_system q = 0" "pending (StationNode k) evs = 0"
    by (auto simp: station_ok_def)
  have "pending (StationNode k) evs' \<le> 1"
    using schedule_pending [OF sch, of "StationNode k"] z by simp
  then show ?thesis using ok idle z by (simp add: station_ok_def)
qed

lemma station_ok_other:
  "station_ok evs k q \<Longrightarrow> pending (StationNode k) evs' = pending (StationNode k) evs \<Longrightarrow>
   station_ok evs' k q"
  by (simp add: station_ok_def)

lemma deliver_accounting:
  assumes acc: "accounting s" and del: "deliver dest job x s = Inr s'"
  shows "accounting s'"
  using del
proof (cases rule: deliver_cases)
  case exit
  then show ?thesis using acc by simp
next
  case (arrive q' evs)
  have "station_ok evs k ((stations s)[dest := q'] ! k)" if k: "k < length (stations s)" for k
  proof (cases "k = dest")
    case True
    have "station_ok (events s) dest (stations s ! dest)"
      using acc arrive(2) by (simp add: accounting_def)
    from station_ok_in [OF this arrive(3) arrive(4)] show ?thesis
      using True k by simp
  next
    case False
    have "pending (StationNode k) evs = pending (StationNode k) (events s)"
      using schedule_pending [OF arrive(4), of "StationNode k"] False by simp
    moreover have "station_ok (events s) k (stations s ! k)"
      using acc k by (simp add: accounting_def)
    ultimately show ?thesis using False by (simp add: station_ok_other)
  qed
  then show ?thesis using acc arrive(5) by (simp add: accounting_def)
qed

lemma loop_body_accounting:
  assumes acc: "accounting s" and step: "loop_body d s = Inr s'"
  shows "accounting s'"
  using step
proof (cases rule: loop_body_cases)
  case (source curr job rest S evs s3 m)
  have "accounting (s\<lparr>clock := curr, Source := S, events := evs\<rparr>)"
    unfolding accounting_def
  proof (intro conjI allI impI)
    show "length (stations (s\<lparr>clock := curr, Source := S, events := evs\<rparr>)) =
          n (s\<lparr>clock := curr, Source := S, events := evs\<rparr>)"
      using acc by (simp add: accounting_def)
  next
    fix k assume "k < length (stations (s\<lparr>clock := curr, Source := S, events := evs\<rparr>))"
    then have k: "k < length (stations s)" by simp
    have "pending (StationNode k) evs = pending (StationNode k) (events s)"
      using schedule_pending [OF source(3), of "StationNode k"] source(1)
      by (simp add: pending_Cons)
    moreover have "station_ok (events s) k (stations s ! k)"
      using acc k by (simp add: accounting_def)
    ultimately show "station_ok (events (s\<lparr>clock := curr, Source := S, events := evs\<rparr>)) k
            (stations (s\<lparr>clock := curr, Source := S, events := evs\<rparr>) ! k)"
      by (simp add: station_ok_other)
  qed
  from deliver_accounting [OF this source(4)] show ?thesis
    using source(6) by (simp add: accounting_def)
next
  case (station curr job k0 rest q' evs dest s3 m)
  let ?s2 = "s\<lparr>clock := curr, stations := (stations s)[k0 := q'], events := evs\<rparr>"
  have "accounting ?s2"
    unfolding accounting_def
  proof (intro conjI allI impI)
    show "length (stations ?s2) = n ?s2"
      using acc by (simp add: accounting_def)
  next
    fix k assume "k < length (stations ?s2)"
    then have k: "k < length (stations s)" by simp
    have okk: "station_ok (events s) k (stations s ! k)"
      using acc k by (simp add: accounting_def)
    show "station_ok (events ?s2) k (stations ?s2 ! k)"
    proof (cases "k = k0")
      case True
      have "station_ok ((curr, job, StationNode k0) # rest) k0 (stations s ! k0)"
        using okk True station(1) by simp
      from station_ok_out [OF this _ station(3) station(4)] show ?thesis
        using True k by simp
    next
      case False
      have "pending (StationNode k) evs = pending (StationNode k) (events s)"
        using schedule_pending [OF station(4), of "StationNode k"] station(1) False
        by (simp add: pending_Cons)
      then show ?thesis using okk False by (simp add: station_ok_other)
    qed
  qed
  from deliver_accounting [OF this station(6)] show ?thesis
    using station(8) by (simp add: accounting_def)
qed

lemma visited_accounting:
  "accounting s \<Longrightarrow> s' \<in> set (visited final_jobs ds s) \<Longrightarrow> accounting s'"
proof (induction ds arbitrary: s)
  case Nil
  then show ?case by simp
next
  case (Cons d ds)
  show ?case
  proof (cases "jobs s < final_jobs")
    case False
    then show ?thesis using Cons.prems by simp
  next
    case True
    show ?thesis
    proof (cases "loop_body d s")
      case (Inl e)
      then show ?thesis using True Cons.prems by simp
    next
      case (Inr s1)
      then have "s' = s \<or> s' \<in> set (visited final_jobs ds s1)"
        using True Cons.prems(2) by simp
      then show ?thesis
        using Cons.prems(1) Cons.IH [OF loop_body_accounting [OF Cons.prems(1) Inr]] by blast
    qed
  qed
qed


lemma sequence_err_Inr:
  "sequence_err ms = Inr xs \<Longrightarrow>
   length xs = length ms \<and> (\<forall>i < length ms. ms ! i = Inr (xs ! i))"
proof (induction ms arbitrary: xs)
  case Nil
  then show ?case by simp
next
  case (Cons m ms)
  from Cons.prems obtain y ys where y: "m = Inr y" "sequence_err ms = Inr ys" "xs = y # ys"
    by (auto simp: bind_err_Inr)
  from Cons.IH [OF y(2)] show ?case using y(1,3) by (auto simp: nth_Cons')
qed

lemma Queue_init_fresh:
  "Queue_init m d f c = Inr q \<Longrightarrow>
   in_system q = 0 \<and> arrival_times q = [] \<and> departure_times q = [] \<and> service_times q = []
   \<and> jobs_in_system q = []"
  by (auto simp: Queue_init_def bind_err_Inr Let_def split: if_splits)

lemma wrapper_init_cases:
  assumes "wrapper_init am sm tm svm fam ac sc r xs u = Inr s0"
  obtains row0 S qs where "index tm 0 = Inr row0"
    "Source_init am sm fam ac r xs u = Inr S"
    "length qs = length row0"
    "\<And>i. i < length row0 \<Longrightarrow> \<exists>m d c. Queue_init m d fam c = Inr (qs ! i)"
    "s0 = \<lparr>n = length row0, Source = S, stations = qs,
           events = [(source.time_next S, Some (source.next_job S), SourceNode)],
           clock = Fin 0, jobs = 0\<rparr>"
proof -
  from assms obtain row0 S qs where a: "index tm 0 = Inr row0"
    "Source_init am sm fam ac r xs u = Inr S"
    and sq: "sequence_err (map (\<lambda>i.
         bind_err (index svm i) (\<lambda>m.
         bind_err (index tm i) (\<lambda>d.
         bind_err (index sc i) (\<lambda>c.
         Queue_init m d fam c)))) [0..<length row0]) = Inr qs"
    and s0: "s0 = \<lparr>n = length row0, Source = S, stations = qs,
           events = [(source.time_next S, Some (source.next_job S), SourceNode)],
           clock = Fin 0, jobs = 0\<rparr>"
    by (auto simp: wrapper_init_def bind_err_Inr)
  from sequence_err_Inr [OF sq] have len: "length qs = length row0"
    and each: "\<And>i. i < length row0 \<Longrightarrow>
         bind_err (index svm i) (\<lambda>m.
         bind_err (index tm i) (\<lambda>d.
         bind_err (index sc i) (\<lambda>c.
         Queue_init m d fam c))) = Inr (qs ! i)"
    by auto
  have "\<exists>m d c. Queue_init m d fam c = Inr (qs ! i)" if "i < length row0" for i
    using each [OF that] by (auto simp: bind_err_Inr)
  then show ?thesis using that a len s0 by blast
qed

lemma wrapper_init_accounting:
  assumes "wrapper_init am sm tm svm fam ac sc r xs u = Inr s0"
  shows "accounting s0"
  using assms
proof (cases rule: wrapper_init_cases)
  case (1 row0 S qs)
  have "station_ok (events s0) k (stations s0 ! k)" if "k < length (stations s0)" for k
  proof -
    have "k < length row0" using that 1(3,5) by simp
    from 1(4) [OF this] obtain m d c where "Queue_init m d fam c = Inr (qs ! k)" by blast
    from Queue_init_fresh [OF this] show ?thesis
      using 1(5) by (simp add: station_ok_def pending_def)
  qed
  then show ?thesis using 1 by (simp add: accounting_def)
qed

text \<open>
  C8. In every state that a run goes through, from the setup of \<open>wrapper\<close> on, every
  station's \<open>in_system\<close> is the number of its recorded arrivals minus the number of its
  recorded departures, and it is not negative.
\<close>

theorem in_system_is_arrivals_minus_departures:
  assumes "wrapper_init am sm tm svm fam ac sc r xs u = Inr s0"
    and "s \<in> set (visited final_jobs ds s0)"
    and "k < n s"
  shows "in_system (stations s ! k) =
           int (length (arrival_times (stations s ! k)))
             - int (length (departure_times (stations s ! k)))
         \<and> 0 \<le> in_system (stations s ! k)"
proof -
  have "accounting s"
    using visited_accounting [OF wrapper_init_accounting [OF assms(1)] assms(2)] .
  then have "station_ok (events s) k (stations s ! k)"
    using assms(3) by (simp add: accounting_def)
  then show ?thesis by (simp add: station_ok_def)
qed

theorem in_system_is_arrivals_minus_departures_witness:
  "\<exists>s0 s. wrapper_init [1] [[1]] [[0]] [1] ''Exponential'' [1] [1] 0 [Fin 1] (1/2) = Inr s0
     \<and> s \<in> set (visited 1 [d1, d2] s0) \<and> 0 < n s
     \<and> in_system (stations s ! 0) = 1
     \<and> in_system (stations s ! 0) =
           int (length (arrival_times (stations s ! 0)))
             - int (length (departure_times (stations s ! 0)))
     \<and> 0 \<le> in_system (stations s ! 0)"
proof -
  from example_run obtain s0 s1 s2 where
    r: "wrapper_init [1] [[1]] [[0]] [1] ''Exponential'' [1] [1] 0 [Fin 1] (1/2) = Inr s0"
      "visited 1 [d1, d2] s0 = [s0, s1, s2]" "jobs s0 = 0" "n s1 = 1"
      "in_system (stations s1 ! 0) = 1"
    by blast
  have v: "s1 \<in> set (visited 1 [d1, d2] s0)" using r by simp
  have k: "0 < n s1" using r by simp
  from in_system_is_arrivals_minus_departures [OF r(1) v k] show ?thesis
    using r(1,5) v k by blast
qed

section \<open>The termination condition\<close>

lemma min_departures_Inr:
  "min_departures qs = Inr m \<longleftrightarrow>
     qs \<noteq> [] \<and> m = Min ((\<lambda>q. int (length (departure_times q))) ` set qs)"
  by (auto simp: min_departures_def min_list_Min)

lemma deliver_stations_length:
  "deliver dest job x s = Inr s' \<Longrightarrow> length (stations s') = length (stations s)"
  by (erule deliver_cases) auto

lemma loop_body_counter:
  assumes "loop_body d s = Inr s'"
  shows "min_departures (stations s') = Inr (jobs s')"
    and "length (stations s') = length (stations s)"
  using assms
  by (cases rule: loop_body_cases; auto dest: deliver_stations_length)+

lemma loop_body_counter_ok: "loop_body d s = Inr s' \<Longrightarrow> counter_ok s'"
  using loop_body_counter(1) [of d s s'] by (auto simp: counter_ok_def min_departures_Inr)

lemma visited_nonempty: "visited final_jobs ds s \<noteq> []"
  by (cases ds) (auto split: sum.splits)

lemma visited_counter_ok:
  "counter_ok s \<Longrightarrow> s' \<in> set (visited final_jobs ds s) \<Longrightarrow> counter_ok s'"
proof (induction ds arbitrary: s)
  case Nil
  then show ?case by simp
next
  case (Cons d ds)
  show ?case
  proof (cases "jobs s < final_jobs")
    case False
    then show ?thesis using Cons.prems by simp
  next
    case True
    show ?thesis
    proof (cases "loop_body d s")
      case (Inl e)
      then show ?thesis using True Cons.prems by simp
    next
      case (Inr s1)
      then have "s' = s \<or> s' \<in> set (visited final_jobs ds s1)"
        using True Cons.prems(2) by simp
      then show ?thesis
        using Cons.prems(1) Cons.IH [OF loop_body_counter_ok [OF Inr]] by blast
    qed
  qed
qed

lemma wrapper_loop_visited:
  "wrapper_loop final_jobs ds s = Inr s' \<Longrightarrow>
   s' = last (visited final_jobs ds s) \<and> \<not> jobs s' < final_jobs
   \<and> (\<forall>x \<in> set (butlast (visited final_jobs ds s)).
         jobs x < final_jobs \<and> stations x \<noteq> [])"
proof (induction ds arbitrary: s)
  case Nil
  then show ?case by (auto split: if_splits)
next
  case (Cons d ds)
  show ?case
  proof (cases "jobs s < final_jobs")
    case False
    then show ?thesis using Cons.prems by simp
  next
    case True
    then obtain s1 where s1: "loop_body d s = Inr s1" "wrapper_loop final_jobs ds s1 = Inr s'"
      using Cons.prems by (auto simp: bind_err_Inr)
    have ne: "stations s \<noteq> []"
      using loop_body_counter [OF s1(1)] by (auto simp: min_departures_Inr)
    have v: "visited final_jobs (d # ds) s = s # visited final_jobs ds s1"
      using True s1(1) by simp
    from Cons.IH [OF s1(2)] show ?thesis
      using v True ne visited_nonempty [of final_jobs ds s1] by auto
  qed
qed

lemma wrapper_init_counter_ok:
  assumes "wrapper_init am sm tm svm fam ac sc r xs u = Inr s0"
  shows "counter_ok s0"
  using assms
proof (cases rule: wrapper_init_cases)
  case (1 row0 S qs)
  have z: "int (length (departure_times q)) = 0" if "q \<in> set qs" for q
  proof -
    from that obtain i where i: "i < length qs" "q = qs ! i" by (auto simp: in_set_conv_nth)
    then have "i < length row0" using 1(3) by simp
    from 1(4) [OF this] obtain m d c where "Queue_init m d fam c = Inr (qs ! i)" by blast
    from Queue_init_fresh [OF this] show ?thesis using i by simp
  qed
  show ?thesis
  proof (cases "qs = []")
    case True
    then show ?thesis using 1(5) by (simp add: counter_ok_def)
  next
    case False
    then obtain q0 where "q0 \<in> set qs" by (cases qs) auto
    then have "(\<lambda>q. int (length (departure_times q))) ` set qs = {0}"
      using z by force
    then show ?thesis using False 1(5) by (simp add: counter_ok_def)
  qed
qed

lemma wrapper_loop_reached:
  assumes "wrapper_init am sm tm svm fam ac sc r xs u = Inr s0"
    and w: "wrapper_loop final_jobs ds s0 = Inr s" and q: "q \<in> set (stations s)"
  shows "final_jobs \<le> int (length (departure_times q))"
proof -
  from wrapper_loop_visited [OF w] have l: "s = last (visited final_jobs ds s0)"
    and j: "\<not> jobs s < final_jobs" by blast+
  have "s \<in> set (visited final_jobs ds s0)" using l visited_nonempty by simp
  then have "counter_ok s"
    using visited_counter_ok [OF wrapper_init_counter_ok [OF assms(1)]] by blast
  moreover have "stations s \<noteq> []" using q by auto
  ultimately have "jobs s = Min ((\<lambda>q. int (length (departure_times q))) ` set (stations s))"
    by (simp add: counter_ok_def)
  then have "jobs s \<le> int (length (departure_times q))" using q by simp
  then show ?thesis using j by simp
qed

lemma visited_hd: "visited final_jobs ds s ! 0 = s"
  by (cases ds) (auto split: sum.splits)

lemma wrapper_loop_iff:
  "wrapper_loop final_jobs ds s0 = Inr s \<longleftrightarrow>
     s \<in> set (visited final_jobs ds s0) \<and> \<not> jobs s < final_jobs"
proof (induction ds arbitrary: s0)
  case Nil
  then show ?case by auto
next
  case (Cons d ds)
  show ?case
  proof (cases "jobs s0 < final_jobs")
    case False
    then show ?thesis by auto
  next
    case True
    show ?thesis
    proof (cases "loop_body d s0")
      case (Inl e)
      then show ?thesis using True by (auto simp: bind_err_def)
    next
      case (Inr s1)
      then show ?thesis using True Cons.IH [of s1] by (auto simp: bind_err_def)
    qed
  qed
qed

lemma visited_continues:
  "i < length (visited final_jobs ds s0) \<Longrightarrow> i < length ds \<Longrightarrow>
   jobs (visited final_jobs ds s0 ! i) < final_jobs \<Longrightarrow>
   (case loop_body (ds ! i) (visited final_jobs ds s0 ! i) of
      Inr s' \<Rightarrow> Suc i < length (visited final_jobs ds s0)
                \<and> visited final_jobs ds s0 ! Suc i = s'
    | Inl e \<Rightarrow> wrapper_loop final_jobs ds s0 = Inl e)"
proof (induction ds arbitrary: s0 i)
  case Nil
  then show ?case by simp
next
  case (Cons d ds)
  show ?case
  proof (cases i)
    case 0
    then have j: "jobs s0 < final_jobs" using Cons.prems(3) visited_hd [of final_jobs "d # ds" s0]
      by simp
    show ?thesis
    proof (cases "loop_body d s0")
      case (Inl e)
      then show ?thesis using 0 j by (simp add: bind_err_def)
    next
      case (Inr s1)
      then show ?thesis using 0 j visited_hd [of final_jobs ds s1]
          visited_nonempty [of final_jobs ds s1]
        by (cases "visited final_jobs ds s1") simp_all
    qed
  next
    case (Suc k)
    then have l: "1 < length (visited final_jobs (d # ds) s0)" using Cons.prems(1) by simp
    then have j: "jobs s0 < final_jobs" by (auto split: if_splits)
    from l j obtain s1 where s1: "loop_body d s0 = Inr s1"
      by (cases "loop_body d s0") auto
    have v: "visited final_jobs (d # ds) s0 = s0 # visited final_jobs ds s1"
      using j s1 by simp
    have w: "wrapper_loop final_jobs (d # ds) s0 = wrapper_loop final_jobs ds s1"
      using j s1 by (simp add: bind_err_def)
    have "case loop_body (ds ! k) (visited final_jobs ds s1 ! k) of
            Inr s' \<Rightarrow> Suc k < length (visited final_jobs ds s1)
                \<and> visited final_jobs ds s1 ! Suc k = s'
          | Inl e \<Rightarrow> wrapper_loop final_jobs ds s1 = Inl e"
      using Cons.prems Suc v by (intro Cons.IH) simp_all
    then show ?thesis unfolding v w Suc by (simp split: sum.splits)
  qed
qed

lemma wrapper_loop_more_draws:
  "wrapper_loop final_jobs ds s0 = Inr s \<Longrightarrow> wrapper_loop final_jobs (ds @ ds') s0 = Inr s"
proof (induction ds arbitrary: s0)
  case Nil
  then show ?case by (cases ds') (auto split: if_splits)
next
  case (Cons d ds)
  then show ?case by (auto simp: bind_err_Inr split: if_splits)
qed

lemma deliver_departures:
  assumes "deliver dest job x s = Inr s'"
  shows "map departure_times (stations s') = map departure_times (stations s)"
  using assms
proof (cases rule: deliver_cases)
  case exit
  then show ?thesis by simp
next
  case (arrive q' evs)
  from arrive(3) have "departure_times q' = departure_times (stations s ! dest)"
    by (cases rule: Queue_action_in_cases) simp_all
  moreover have "(map departure_times (stations s))[dest := map departure_times (stations s) ! dest]
      = map departure_times (stations s)"
    by (rule list_update_id)
  ultimately show ?thesis using arrive(2,5) by (simp add: map_update)
qed

lemma loop_body_departures:
  assumes "loop_body d s = Inr s'" and "k < length (stations s)"
  shows "\<exists>ts. departure_times (stations s' ! k) = departure_times (stations s ! k) @ ts"
  using assms(1)
proof (cases rule: loop_body_cases)
  case (source curr job rest S evs s3 m)
  from deliver_departures [OF source(4)] source(6)
  have "map departure_times (stations s') = map departure_times (stations s)" by simp
  then have "map departure_times (stations s') ! k = map departure_times (stations s) ! k"
    by simp
  moreover have "length (stations s') = length (stations s)"
    using loop_body_counter(2) [OF assms(1)] .
  ultimately show ?thesis using assms(2) by simp
next
  case (station curr job j rest q' evs dest s3 m)
  from station(3) have q': "departure_times q' = departure_times (stations s ! j) @ [curr]"
    by (cases rule: Queue_action_out_cases) simp_all
  from deliver_departures [OF station(6)] station(8)
  have "map departure_times (stations s') = (map departure_times (stations s))[j := departure_times q']"
    by (simp add: map_update)
  then have "map departure_times (stations s') ! k
           = (map departure_times (stations s))[j := departure_times q'] ! k"
    by simp
  moreover have "length (stations s') = length (stations s)"
    using loop_body_counter(2) [OF assms(1)] .
  ultimately show ?thesis using assms(2) q' by (cases "k = j") simp_all
qed


lemma visited_step:
  "Suc i < length (visited final_jobs ds s0) \<Longrightarrow>
   i < length ds \<and> jobs (visited final_jobs ds s0 ! i) < final_jobs
   \<and> loop_body (ds ! i) (visited final_jobs ds s0 ! i) = Inr (visited final_jobs ds s0 ! Suc i)"
proof (induction ds arbitrary: s0 i)
  case Nil
  then show ?case by simp
next
  case (Cons d ds)
  from Cons.prems have j: "jobs s0 < final_jobs" by (auto split: if_splits)
  with Cons.prems obtain s1 where s1: "loop_body d s0 = Inr s1"
    by (cases "loop_body d s0") auto
  have v: "visited final_jobs (d # ds) s0 = s0 # visited final_jobs ds s1"
    using j s1 by simp
  show ?case
  proof (cases i)
    case 0
    then show ?thesis using v j s1 visited_hd [of final_jobs ds s1] by simp
  next
    case (Suc k)
    then have "Suc k < length (visited final_jobs ds s1)" using Cons.prems v by simp
    from Cons.IH [OF this] show ?thesis using v Suc by simp
  qed
qed

text \<open>
  C9. In every state at the head of the loop of a run, \<open>jobs\<close> is the least number of
  departures recorded at a station. While some station is below the target and draws
  are left, the loop runs the body once more: the next state visited is the one the
  body returns, and an error of the body is the error of the loop. The loop returns a
  state it visits exactly when every station there has recorded at least \<open>final_jobs\<close>
  departures. When the loop returns, it returns the last state visited, and it returns
  the same with more draws; in every state visited before, some station had recorded
  fewer. A station may have recorded more than the target: an iteration only ever
  appends to the departures recorded at a station, whether it has reached the target
  or not. Of what a station recorded \<open>export\<close> keeps the first \<open>final_jobs\<close> waiting times,
  and there are that many.
\<close>

theorem loop_runs_until_every_station_reaches_target:
  assumes "wrapper_init am sm tm svm fam ac sc r xs u = Inr s0"
  shows "(\<forall>s \<in> set (visited final_jobs ds s0). stations s \<noteq> [] \<longrightarrow>
            jobs s = Min ((\<lambda>q. int (length (departure_times q))) ` set (stations s)))
       \<and> (\<forall>i. i < length (visited final_jobs ds s0) \<and> i < length ds
              \<and> (\<exists>q \<in> set (stations (visited final_jobs ds s0 ! i)).
                    int (length (departure_times q)) < final_jobs) \<longrightarrow>
            (case loop_body (ds ! i) (visited final_jobs ds s0 ! i) of
               Inr s' \<Rightarrow> Suc i < length (visited final_jobs ds s0)
                         \<and> visited final_jobs ds s0 ! Suc i = s'
             | Inl e \<Rightarrow> wrapper_loop final_jobs ds s0 = Inl e))
       \<and> (\<forall>s \<in> set (visited final_jobs ds s0). stations s \<noteq> [] \<longrightarrow>
            (wrapper_loop final_jobs ds s0 = Inr s \<longleftrightarrow>
               (\<forall>q \<in> set (stations s). final_jobs \<le> int (length (departure_times q)))))
       \<and> (\<forall>s. wrapper_loop final_jobs ds s0 = Inr s \<longrightarrow>
            s = last (visited final_jobs ds s0)
            \<and> (\<forall>ds'. wrapper_loop final_jobs (ds @ ds') s0 = Inr s)
            \<and> (\<forall>q \<in> set (stations s). final_jobs \<le> int (length (departure_times q)))
            \<and> (\<forall>x \<in> set (butlast (visited final_jobs ds s0)).
                  \<exists>q \<in> set (stations x). int (length (departure_times q)) < final_jobs)
            \<and> (\<forall>i < n s. 0 \<le> final_jobs \<longrightarrow>
                  (\<exists>res. extractor (stations s ! i) = Inr res
                       \<and> nat final_jobs \<le> length (waiting_times res)
                       \<and> export_waiting_times final_jobs s i
                           = Inr (take (nat final_jobs) (waiting_times res))
                       \<and> length (take (nat final_jobs) (waiting_times res)) = nat final_jobs)))
       \<and> (\<forall>i k. Suc i < length (visited final_jobs ds s0)
              \<and> k < length (stations (visited final_jobs ds s0 ! i)) \<longrightarrow>
            (\<exists>ts. departure_times (stations (visited final_jobs ds s0 ! Suc i) ! k)
                    = departure_times (stations (visited final_jobs ds s0 ! i) ! k) @ ts))"
proof -
  note cok = visited_counter_ok [OF wrapper_init_counter_ok [OF assms]]
  have m: "jobs s = Min ((\<lambda>q. int (length (departure_times q))) ` set (stations s))"
    if "s \<in> set (visited final_jobs ds s0)" "stations s \<noteq> []" for s
    using cok [OF that(1)] that(2) by (simp add: counter_ok_def)
  have below: "jobs s < final_jobs \<longleftrightarrow>
      (\<exists>q \<in> set (stations s). int (length (departure_times q)) < final_jobs)"
    if "s \<in> set (visited final_jobs ds s0)" "stations s \<noteq> []" for s
  proof -
    have "Min ((\<lambda>q. int (length (departure_times q))) ` set (stations s)) < final_jobs \<longleftrightarrow>
        (\<exists>a \<in> (\<lambda>q. int (length (departure_times q))) ` set (stations s). a < final_jobs)"
      using that(2) by (intro Min_less_iff) auto
    then show ?thesis using m [OF that] by auto
  qed
  have c1: "\<forall>s \<in> set (visited final_jobs ds s0). stations s \<noteq> [] \<longrightarrow>
            jobs s = Min ((\<lambda>q. int (length (departure_times q))) ` set (stations s))"
    using m by blast
  have c2: "\<forall>i. i < length (visited final_jobs ds s0) \<and> i < length ds
              \<and> (\<exists>q \<in> set (stations (visited final_jobs ds s0 ! i)).
                    int (length (departure_times q)) < final_jobs) \<longrightarrow>
            (case loop_body (ds ! i) (visited final_jobs ds s0 ! i) of
               Inr s' \<Rightarrow> Suc i < length (visited final_jobs ds s0)
                         \<and> visited final_jobs ds s0 ! Suc i = s'
             | Inl e \<Rightarrow> wrapper_loop final_jobs ds s0 = Inl e)"
  proof (intro allI impI)
    fix i
    assume h: "i < length (visited final_jobs ds s0) \<and> i < length ds
              \<and> (\<exists>q \<in> set (stations (visited final_jobs ds s0 ! i)).
                    int (length (departure_times q)) < final_jobs)"
    let ?s = "visited final_jobs ds s0 ! i"
    have "?s \<in> set (visited final_jobs ds s0)" using h by simp
    moreover have "stations ?s \<noteq> []" using h by auto
    ultimately have "jobs ?s < final_jobs" using below h by blast
    with h show "case loop_body (ds ! i) ?s of
               Inr s' \<Rightarrow> Suc i < length (visited final_jobs ds s0)
                         \<and> visited final_jobs ds s0 ! Suc i = s'
             | Inl e \<Rightarrow> wrapper_loop final_jobs ds s0 = Inl e"
      by (intro visited_continues) simp_all
  qed
  have c3: "\<forall>s \<in> set (visited final_jobs ds s0). stations s \<noteq> [] \<longrightarrow>
            (wrapper_loop final_jobs ds s0 = Inr s \<longleftrightarrow>
               (\<forall>q \<in> set (stations s). final_jobs \<le> int (length (departure_times q))))"
  proof (intro ballI impI)
    fix s assume s: "s \<in> set (visited final_jobs ds s0)" "stations s \<noteq> []"
    have "wrapper_loop final_jobs ds s0 = Inr s \<longleftrightarrow> \<not> jobs s < final_jobs"
      using s(1) by (simp add: wrapper_loop_iff)
    then show "wrapper_loop final_jobs ds s0 = Inr s \<longleftrightarrow>
               (\<forall>q \<in> set (stations s). final_jobs \<le> int (length (departure_times q)))"
      using below [OF s] by (auto simp: not_less)
  qed
  have c4: "s = last (visited final_jobs ds s0)
            \<and> (\<forall>ds'. wrapper_loop final_jobs (ds @ ds') s0 = Inr s)
            \<and> (\<forall>q \<in> set (stations s). final_jobs \<le> int (length (departure_times q)))
            \<and> (\<forall>x \<in> set (butlast (visited final_jobs ds s0)).
                  \<exists>q \<in> set (stations x). int (length (departure_times q)) < final_jobs)
            \<and> (\<forall>i < n s. 0 \<le> final_jobs \<longrightarrow>
                  (\<exists>res. extractor (stations s ! i) = Inr res
                       \<and> nat final_jobs \<le> length (waiting_times res)
                       \<and> export_waiting_times final_jobs s i
                           = Inr (take (nat final_jobs) (waiting_times res))
                       \<and> length (take (nat final_jobs) (waiting_times res)) = nat final_jobs))"
    if w: "wrapper_loop final_jobs ds s0 = Inr s" for s
  proof (intro conjI ballI allI impI)
    from wrapper_loop_visited [OF w] show "s = last (visited final_jobs ds s0)" by simp
  next
    fix ds' from wrapper_loop_more_draws [OF w]
    show "wrapper_loop final_jobs (ds @ ds') s0 = Inr s" .
  next
    fix q assume q: "q \<in> set (stations s)"
    from wrapper_loop_reached [OF assms w q]
    show "final_jobs \<le> int (length (departure_times q))" .
  next
    fix x assume x: "x \<in> set (butlast (visited final_jobs ds s0))"
    from wrapper_loop_visited [OF w] x have j: "jobs x < final_jobs" and ne: "stations x \<noteq> []"
      by blast+
    have "x \<in> set (visited final_jobs ds s0)" using x by (rule in_set_butlastD)
    from below [OF this ne] j
    show "\<exists>q \<in> set (stations x). int (length (departure_times q)) < final_jobs" by simp
  next
    fix i assume i: "i < n s" and f: "0 \<le> final_jobs"
    from wrapper_loop_visited [OF w] have "s \<in> set (visited final_jobs ds s0)"
      using visited_nonempty [of final_jobs ds s0] by simp
    then have acc: "accounting s"
      using visited_accounting [OF wrapper_init_accounting [OF assms]] by blast
    then have il: "i < length (stations s)" using i by (simp add: accounting_def)
    let ?q = "stations s ! i"
    have ok: "station_ok (events s) i ?q" using acc il by (simp add: accounting_def)
    then have le: "length (service_times ?q) \<le> length (arrival_times ?q)"
      and dl: "length (departure_times ?q) \<le> length (service_times ?q)"
      by (auto simp: station_ok_def split: if_splits)
    from extractor_spec [OF le] obtain res where res: "extractor ?q = Inr res"
      "length (waiting_times res) = length (service_times ?q)" by blast
    have "?q \<in> set (stations s)" using il by simp
    from wrapper_loop_reached [OF assms w this] dl
    have l: "nat final_jobs \<le> length (waiting_times res)" using res(2) by simp
    have "export_waiting_times final_jobs s i = Inr (take (nat final_jobs) (waiting_times res))"
      using il res(1) f
      by (simp add: export_waiting_times_def system_def bind_err_def slice_to_def)
    then show "\<exists>res. extractor (stations s ! i) = Inr res
                       \<and> nat final_jobs \<le> length (waiting_times res)
                       \<and> export_waiting_times final_jobs s i
                           = Inr (take (nat final_jobs) (waiting_times res))
                       \<and> length (take (nat final_jobs) (waiting_times res)) = nat final_jobs"
      using res(1) l by auto
  qed
  have c5: "\<forall>i k. Suc i < length (visited final_jobs ds s0)
              \<and> k < length (stations (visited final_jobs ds s0 ! i)) \<longrightarrow>
            (\<exists>ts. departure_times (stations (visited final_jobs ds s0 ! Suc i) ! k)
                    = departure_times (stations (visited final_jobs ds s0 ! i) ! k) @ ts)"
  proof (intro allI impI)
    fix i k
    assume h: "Suc i < length (visited final_jobs ds s0)
              \<and> k < length (stations (visited final_jobs ds s0 ! i))"
    then have "loop_body (ds ! i) (visited final_jobs ds s0 ! i)
                 = Inr (visited final_jobs ds s0 ! Suc i)"
      using visited_step [of i final_jobs ds s0] by simp
    from loop_body_departures [OF this] h
    show "\<exists>ts. departure_times (stations (visited final_jobs ds s0 ! Suc i) ! k)
                    = departure_times (stations (visited final_jobs ds s0 ! i) ! k) @ ts"
      by simp
  qed
  from c1 c2 c3 c4 c5 show ?thesis by blast
qed


theorem loop_runs_until_every_station_reaches_target_witness:
  "\<exists>s0 s. wrapper_init [1] [[1, 0]] [[0, 1], [0, 0]] [1, 1] ''Exponential'' [1] [1, 1] 0
              [Fin 1] (1/2) = Inr s0
     \<and> length (visited 1 tandem s0) = 6 \<and> s = visited 1 tandem s0 ! 5
     \<and> map jobs (visited 1 tandem s0) = [0, 0, 0, 0, 0, 1]
     \<and> length (departure_times (stations (visited 1 tandem s0 ! 3) ! 0)) = 1
     \<and> length (departure_times (stations (visited 1 tandem s0 ! 3) ! 1)) = 0
     \<and> loop_body (tandem ! 3) (visited 1 tandem s0 ! 3) = Inr (visited 1 tandem s0 ! 4)
     \<and> length (departure_times (stations (visited 1 tandem s0 ! 4) ! 0)) = 2
     \<and> wrapper_loop 1 tandem s0 = Inr s
     \<and> length (departure_times (stations s ! 0)) = 2
     \<and> length (departure_times (stations s ! 1)) = 1
     \<and> (\<exists>res. extractor (stations s ! 0) = Inr res \<and> waiting_times res = [Fin 0, Fin 1])
     \<and> export_waiting_times 1 s 0 = Inr [Fin 0]
     \<and> (\<exists>res. extractor (stations s ! 1) = Inr res \<and> waiting_times res = [Fin 0, Fin 4])
     \<and> export_waiting_times 1 s 1 = Inr [Fin 0]"
proof -
  from tandem_steps obtain s0 s1 s2 s3 s4 s5 res0 res1 where
    i: "wrapper_init [1] [[1, 0]] [[0, 1], [0, 0]] [1, 1] ''Exponential'' [1] [1, 1] 0
              [Fin 1] (1/2) = Inr s0"
    and b: "loop_body tandem1 s0 = Inr s1" "loop_body tandem2 s1 = Inr s2" "loop_body tandem3 s2 = Inr s3"
      "loop_body tandem1 s3 = Inr s4" "loop_body tandem1 s4 = Inr s5"
    and j: "jobs s0 = 0" "jobs s1 = 0" "jobs s2 = 0" "jobs s3 = 0" "jobs s4 = 0" "jobs s5 = 1"
    and l: "n s5 = 2" "length (stations s5) = 2"
    and d: "departure_times (stations s3 ! 0) = [Fin 3]" "departure_times (stations s3 ! 1) = []"
      "departure_times (stations s4 ! 0) = [Fin 3, Fin 4]"
      "departure_times (stations s5 ! 0) = [Fin 3, Fin 4]"
      "departure_times (stations s5 ! 1) = [Fin 8]"
    and e: "extractor (stations s5 ! 0) = Inr res0" "waiting_times res0 = [Fin 0, Fin 1]"
      "extractor (stations s5 ! 1) = Inr res1" "waiting_times res1 = [Fin 0, Fin 4]"
    by blast
  have v: "visited 1 tandem s0 = [s0, s1, s2, s3, s4, s5]"
    using b j by (simp add: tandem_def)
  note t = loop_runs_until_every_station_reaches_target [OF i, of 1 tandem]
  have ls3: "length (stations s3) = 2"
    using loop_body_counter(2) [OF b(4)] loop_body_counter(2) [OF b(5)] l(2) by simp
  have "(3::nat) < length (visited 1 tandem s0) \<and> 3 < length tandem
      \<and> (\<exists>q \<in> set (stations (visited 1 tandem s0 ! 3)). int (length (departure_times q)) < 1)"
  proof -
    have "stations s3 ! 1 \<in> set (stations s3)" using ls3 by simp
    then show ?thesis using v d(2) by (auto simp: tandem_def)
  qed
  with t have "case loop_body (tandem ! 3) (visited 1 tandem s0 ! 3) of
               Inr s' \<Rightarrow> Suc 3 < length (visited 1 tandem s0)
                         \<and> visited 1 tandem s0 ! Suc 3 = s'
             | Inl e \<Rightarrow> wrapper_loop 1 tandem s0 = Inl e"
    by blast
  then have step: "loop_body (tandem ! 3) (visited 1 tandem s0 ! 3) = Inr (visited 1 tandem s0 ! 4)"
    using v b(4) by (simp add: tandem_def)
  have in5: "s5 \<in> set (visited 1 tandem s0)" "stations s5 \<noteq> []" using v l(2) by auto
  have all5: "\<forall>q \<in> set (stations s5). 1 \<le> int (length (departure_times q))"
  proof
    fix q assume "q \<in> set (stations s5)"
    then obtain k where "k < 2" "q = stations s5 ! k" using l(2) by (auto simp: in_set_conv_nth)
    then have "k = 0 \<or> k = 1" by auto
    then show "1 \<le> int (length (departure_times q))" using \<open>q = stations s5 ! k\<close> d by auto
  qed
  from t in5 all5 have w: "wrapper_loop 1 tandem s0 = Inr s5" by blast
  have x0: "export_waiting_times 1 s5 0 = Inr [Fin 0]"
  proof -
    have "(0::nat) < n s5" "(0::int) \<le> 1" using l by simp_all
    with t w obtain res where "extractor (stations s5 ! 0) = Inr res"
      "export_waiting_times 1 s5 0 = Inr (take (nat 1) (waiting_times res))" by blast
    then show ?thesis using e(1,2) by simp
  qed
  have x1: "export_waiting_times 1 s5 1 = Inr [Fin 0]"
  proof -
    have "(1::nat) < n s5" "(0::int) \<le> 1" using l by simp_all
    with t w obtain res where "extractor (stations s5 ! 1) = Inr res"
      "export_waiting_times 1 s5 1 = Inr (take (nat 1) (waiting_times res))" by blast
    then show ?thesis using e(3,4) by simp
  qed
  show ?thesis
    using i v j d step w e x0 x1 by (intro exI [of _ s0] exI [of _ s5]) simp
qed

section \<open>Which events an iteration schedules\<close>

lemma schedule_count:
  assumes "schedule t j nd evs = Inr evs'"
  shows "if t = None \<or> t = Some (Fin 0) then evs' = evs
         else (\<forall>e. count_list evs' e = count_list evs e + (if e = (the t, j, nd) then 1 else 0))"
  using assms
proof (cases rule: schedule_cases)
  case skip
  then show ?thesis by (auto simp: truthy_iff)
next
  case (push x)
  then show ?thesis using heappush_count [OF push(3)] by auto
qed

lemma deliver_frame:
  assumes "deliver dest job x s = Inr s'"
  shows "Source s' = Source s \<and> clock s' = clock s \<and> n s' = n s
     \<and> length (stations s') = length (stations s)
     \<and> (\<forall>k. k \<noteq> dest \<longrightarrow> stations s' ! k = stations s ! k)
     \<and> (\<forall>nd. nd \<noteq> StationNode dest \<longrightarrow> pending nd (events s') = pending nd (events s))"
  using assms
proof (cases rule: deliver_cases)
  case exit
  then show ?thesis by simp
next
  case (arrive q' evs)
  have "pending nd evs = pending nd (events s)" if "nd \<noteq> StationNode dest" for nd
    using schedule_pending [OF arrive(4), of nd] that by auto
  then show ?thesis using arrive(5) by simp
qed

lemma deliver_arrival:
  assumes "deliver dest job x s = Inr s'" and "dest \<noteq> n s"
  shows "dest < length (stations s)
     \<and> Queue_action_in (clock s) job x (stations s ! dest) = Inr (stations s' ! dest)
     \<and> pending (StationNode dest) (events s') =
           pending (StationNode dest) (events s)
             + (if truthy (queue.time_next (stations s' ! dest)) then 1 else 0)"
  using assms(1)
proof (cases rule: deliver_cases)
  case exit
  then show ?thesis using assms(2) by simp
next
  case (arrive q' evs)
  then show ?thesis using schedule_pending [OF arrive(4), of "StationNode dest"] by simp
qed

lemma Queue_action_in_arrivals:
  "Queue_action_in t job x q = Inr q' \<Longrightarrow>
   arrival_times q' = arrival_times q @ [t] \<and> departure_times q' = departure_times q
   \<and> in_system q' = in_system q + 1
   \<and> (1 \<le> in_system q \<longrightarrow> queue.time_next q' = None)"
  by (erule Queue_action_in_cases) auto


lemma deliver_stuck:
  assumes del: "deliver dest job x s = Inr s'" and st: "stuck k s"
  shows "stuck k s' \<and> departure_times (stations s' ! k) = departure_times (stations s ! k)"
proof (cases "dest = k \<and> dest \<noteq> n s")
  case False
  show ?thesis
  proof (cases "dest = n s")
    case True
    then have "s' = s" using del by (simp add: deliver_def)
    then show ?thesis using st by simp
  next
    case F: False
    then have ne: "k \<noteq> dest" using False by simp
    then have "StationNode k \<noteq> StationNode dest" by simp
    then show ?thesis using deliver_frame [OF del] st ne by (simp add: stuck_def)
  qed
next
  case True
  from deliver_arrival [OF del] True
  have a: "Queue_action_in (clock s) job x (stations s ! k) = Inr (stations s' ! k)"
    and p: "pending (StationNode k) (events s') =
           pending (StationNode k) (events s)
             + (if truthy (queue.time_next (stations s' ! k)) then 1 else 0)"
    by auto
  from Queue_action_in_arrivals [OF a] st
  have "queue.time_next (stations s' ! k) = None" "1 \<le> in_system (stations s' ! k)"
    "departure_times (stations s' ! k) = departure_times (stations s ! k)"
    by (auto simp: stuck_def)
  then show ?thesis using p st deliver_frame [OF del] by (simp add: stuck_def truthy_def)
qed

lemma loop_body_stuck:
  assumes step: "loop_body d s = Inr s'" and st: "stuck k s"
  shows "stuck k s' \<and> departure_times (stations s' ! k) = departure_times (stations s ! k)"
  using step
proof (cases rule: loop_body_cases)
  case (source curr job rest S evs s3 m)
  let ?s2 = "s\<lparr>clock := curr, Source := S, events := evs\<rparr>"
  have "pending (StationNode k) evs = 0"
    using schedule_pending [OF source(3), of "StationNode k"] st source(1)
    by (simp add: stuck_def pending_Cons)
  then have "stuck k ?s2" using st by (simp add: stuck_def)
  from deliver_stuck [OF source(4) this] show ?thesis
    using source(6) by (simp add: stuck_def)
next
  case (station curr job k0 rest q' evs dest s3 m)
  let ?s2 = "s\<lparr>clock := curr, stations := (stations s)[k0 := q'], events := evs\<rparr>"
  have ne: "k0 \<noteq> k" using st station(1) by (auto simp: stuck_def pending_Cons)
  then have "pending (StationNode k) evs = 0"
    using schedule_pending [OF station(4), of "StationNode k"] st station(1)
    by (simp add: stuck_def pending_Cons)
  then have "stuck k ?s2" using st ne by (simp add: stuck_def)
  from deliver_stuck [OF station(6) this] show ?thesis
    using station(8) ne by (simp add: stuck_def)
qed

lemma loop_body_source_stuck:
  assumes step: "loop_body d s = Inr s'" and p: "pending SourceNode (events s) = 0"
  shows "pending SourceNode (events s') = 0 \<and> Source s' = Source s"
  using step
proof (cases rule: loop_body_cases)
  case (source curr job rest S evs s3 m)
  then show ?thesis using p by (simp add: pending_Cons)
next
  case (station curr job k0 rest q' evs dest s3 m)
  have "pending SourceNode evs = 0"
    using schedule_pending [OF station(4), of SourceNode] p station(1)
    by (simp add: pending_Cons)
  then show ?thesis using deliver_frame [OF station(6)] station(8) by simp
qed

lemma loop_body_source_event:
  assumes step: "loop_body d s = Inr s'" and ev: "events s = (t0, job, SourceNode) # rest"
  shows "pending SourceNode (events s') =
           pending SourceNode rest + (if source.time_next (Source s') = Fin 0 then 0 else 1)"
  using step
proof (cases rule: loop_body_cases)
  case (source curr' job' rest' S evs s3 m)
  have "pending SourceNode evs =
          pending SourceNode rest + (if source.time_next S = Fin 0 then 0 else 1)"
    using schedule_pending [OF source(3), of SourceNode] source(1) ev
    by (simp add: truthy_iff)
  then show ?thesis using deliver_frame [OF source(4)] source(6) by simp
next
  case (station curr' job' k0 rest' q' evs dest s3 m)
  then show ?thesis using ev by simp
qed

lemma loop_body_departure_event:
  assumes step: "loop_body d s = Inr s'" and ev: "events s = (t0, job, StationNode k) # rest"
    and away: "queue.next_destination (stations s' ! k) \<noteq> Some k"
  shows "pending (StationNode k) (events s') =
           pending (StationNode k) rest
             + (if queue.time_next (stations s' ! k) = None
                   \<or> queue.time_next (stations s' ! k) = Some (Fin 0) then 0 else 1)"
  using step
proof (cases rule: loop_body_cases)
  case (source curr' job' rest' S evs s3 m)
  then show ?thesis using ev by simp
next
  case (station curr' job' k0 rest' q' evs dest s3 m)
  then have k: "k0 = k" "rest' = rest" using ev by simp_all
  let ?s2 = "s\<lparr>clock := curr', stations := (stations s)[k0 := q'], events := evs\<rparr>"
  have p: "pending (StationNode k) evs =
          pending (StationNode k) rest + (if truthy (queue.time_next q') then 1 else 0)"
    using schedule_pending [OF station(4), of "StationNode k"] k by simp
  have ne: "dest \<noteq> k"
  proof
    assume e: "dest = k"
    show False
    proof (cases "dest = n ?s2")
      case True
      then have "s3 = ?s2" using station(6) by (simp add: deliver_def)
      then show False using away station(2,5,8) k e by simp
    next
      case False
      from deliver_arrival [OF station(6) False] e
      have "Queue_action_in (clock ?s2) job' (in_sample d) (stations ?s2 ! k)
              = Inr (stations s3 ! k)" by simp
      then have "queue.next_destination (stations s3 ! k)
                   = queue.next_destination (stations ?s2 ! k)"
        by (cases rule: Queue_action_in_cases) auto
      then show False using away station(2,5,8) k e by simp
    qed
  qed
  then have "stations s3 ! k = q'" "pending (StationNode k) (events s3) = pending (StationNode k) evs"
    using deliver_frame [OF station(6)] station(2) k by auto
  then show ?thesis using p station(8) by (simp add: truthy_iff)
qed

lemma visited_stuck:
  "stuck k s \<Longrightarrow> s' \<in> set (visited final_jobs ds s) \<Longrightarrow>
   stuck k s' \<and> departure_times (stations s' ! k) = departure_times (stations s ! k)"
proof (induction ds arbitrary: s)
  case Nil
  then show ?case by simp
next
  case (Cons d ds)
  show ?case
  proof (cases "jobs s < final_jobs")
    case False
    then show ?thesis using Cons.prems by simp
  next
    case True
    show ?thesis
    proof (cases "loop_body d s")
      case (Inl e)
      then show ?thesis using True Cons.prems by simp
    next
      case (Inr s1)
      then have "s' = s \<or> s' \<in> set (visited final_jobs ds s1)"
        using True Cons.prems(2) by simp
      then show ?thesis
        using Cons.prems(1) loop_body_stuck [OF Inr Cons.prems(1)]
          Cons.IH [of s1] by auto
    qed
  qed
qed

lemma visited_source_stuck:
  "pending SourceNode (events s) = 0 \<Longrightarrow> s' \<in> set (visited final_jobs ds s) \<Longrightarrow>
   pending SourceNode (events s') = 0 \<and> Source s' = Source s"
proof (induction ds arbitrary: s)
  case Nil
  then show ?case by simp
next
  case (Cons d ds)
  show ?case
  proof (cases "jobs s < final_jobs")
    case False
    then show ?thesis using Cons.prems by simp
  next
    case True
    show ?thesis
    proof (cases "loop_body d s")
      case (Inl e)
      then show ?thesis using True Cons.prems by simp
    next
      case (Inr s1)
      then have "s' = s \<or> s' \<in> set (visited final_jobs ds s1)"
        using True Cons.prems(2) by simp
      then show ?thesis
        using Cons.prems(1) loop_body_source_stuck [OF Inr Cons.prems(1)]
          Cons.IH [of s1] by auto
    qed
  qed
qed

text \<open>
  A run whose first service time is 0.0, drawn at clock 0.0, and its next iteration.
\<close>

lemma zero_service_steps:
  "\<exists>s0 s1 s2. wrapper_init [1] [[1]] [[0]] [1] ''Exponential'' [1] [1] 0 [Fin 0] (1/2) = Inr s0
     \<and> loop_body d0 s0 = Inr s1 \<and> loop_body d1 s1 = Inr s2
     \<and> jobs s1 = 0
     \<and> events s0 = [(Fin 0, Some 0, SourceNode)]
     \<and> queue.time_next (stations s1 ! 0) = Some (Fin 0)
     \<and> queue.next_job (stations s1 ! 0) = Some 0
     \<and> length (stations s1) = 1 \<and> in_system (stations s1 ! 0) = 1
     \<and> events s1 = [(Fin 1, Some 1, SourceNode)]
     \<and> departure_times (stations s1 ! 0) = []
     \<and> in_system (stations s2 ! 0) = 2
     \<and> events s2 = [(Fin 3, Some 2, SourceNode)]"
  by (simp add: d0_def d1_def eval_defs upt_conv_Cons)

text \<open>
  C10. The loop's \<open>if time_next: heappush(...)\<close> leaves the heap as it is when the
  node's \<open>time_next\<close> is \<open>None\<close> or 0.0 and adds exactly the event (time_next, next_job,
  node) otherwise. So, after an iteration that fires the source, the heap has one more
  source event than what was left after the pop unless the source's next arrival time
  is 0.0; after a departure of station \<open>k\<close> whose job goes elsewhere, one more event of
  \<open>k\<close> unless \<open>k\<close>'s \<open>time_next\<close> is \<open>None\<close> or 0.0; and after the delivery of a job to a
  station likewise. An event that is not scheduled never occurs: a station that holds
  a job while the heap has no event for it stays so in every later state of the run
  and records no further departure, and once the heap has no source event it never
  has one again and the source never fires.
\<close>

theorem follow_up_event_iff_time_next_nonzero:
  "(schedule t j nd evs = Inr evs' \<longrightarrow>
      (if t = None \<or> t = Some (Fin 0) then evs' = evs
       else (\<forall>e. count_list evs' e =
                  count_list evs e + (if e = (the t, j, nd) then 1 else 0))))
   \<and> (loop_body d s = Inr s' \<and> events s = (t0, job, SourceNode) # rest \<longrightarrow>
        pending SourceNode (events s') =
          pending SourceNode rest + (if source.time_next (Source s') = Fin 0 then 0 else 1))
   \<and> (loop_body d s = Inr s' \<and> events s = (t0, job, StationNode k) # rest
        \<and> queue.next_destination (stations s' ! k) \<noteq> Some k \<longrightarrow>
        pending (StationNode k) (events s') =
          pending (StationNode k) rest
            + (if queue.time_next (stations s' ! k) = None
                  \<or> queue.time_next (stations s' ! k) = Some (Fin 0) then 0 else 1))
   \<and> (deliver dest job x s = Inr s' \<and> dest \<noteq> n s \<longrightarrow>
        pending (StationNode dest) (events s') =
          pending (StationNode dest) (events s)
            + (if queue.time_next (stations s' ! dest) = None
                  \<or> queue.time_next (stations s' ! dest) = Some (Fin 0) then 0 else 1))
   \<and> (stuck k s \<and> s'' \<in> set (visited final_jobs ds s) \<longrightarrow>
        stuck k s'' \<and> departure_times (stations s'' ! k) = departure_times (stations s ! k))
   \<and> (pending SourceNode (events s) = 0 \<and> s'' \<in> set (visited final_jobs ds s) \<longrightarrow>
        pending SourceNode (events s'') = 0 \<and> Source s'' = Source s)"
proof (intro conjI impI)
  assume "schedule t j nd evs = Inr evs'"
  then show "if t = None \<or> t = Some (Fin 0) then evs' = evs
       else (\<forall>e. count_list evs' e =
                  count_list evs e + (if e = (the t, j, nd) then 1 else 0))"
    by (rule schedule_count)
next
  assume "loop_body d s = Inr s' \<and> events s = (t0, job, SourceNode) # rest"
  then show "pending SourceNode (events s') =
          pending SourceNode rest + (if source.time_next (Source s') = Fin 0 then 0 else 1)"
    using loop_body_source_event by blast
next
  assume "loop_body d s = Inr s' \<and> events s = (t0, job, StationNode k) # rest
        \<and> queue.next_destination (stations s' ! k) \<noteq> Some k"
  then show "pending (StationNode k) (events s') =
          pending (StationNode k) rest
            + (if queue.time_next (stations s' ! k) = None
                  \<or> queue.time_next (stations s' ! k) = Some (Fin 0) then 0 else 1)"
    using loop_body_departure_event by blast
next
  assume a: "deliver dest job x s = Inr s' \<and> dest \<noteq> n s"
  then have "pending (StationNode dest) (events s') =
           pending (StationNode dest) (events s)
             + (if truthy (queue.time_next (stations s' ! dest)) then 1 else 0)"
    using deliver_arrival by blast
  then show "pending (StationNode dest) (events s') =
          pending (StationNode dest) (events s)
            + (if queue.time_next (stations s' ! dest) = None
                  \<or> queue.time_next (stations s' ! dest) = Some (Fin 0) then 0 else 1)"
    by (simp add: truthy_iff)
next
  assume a: "stuck k s \<and> s'' \<in> set (visited final_jobs ds s)"
  then show "stuck k s''" using visited_stuck by blast
  from a show "departure_times (stations s'' ! k) = departure_times (stations s ! k)"
    using visited_stuck by blast
next
  assume a: "pending SourceNode (events s) = 0 \<and> s'' \<in> set (visited final_jobs ds s)"
  then show "pending SourceNode (events s'') = 0" using visited_source_stuck by blast
  from a show "Source s'' = Source s" using visited_source_stuck by blast
qed

theorem follow_up_event_iff_time_next_nonzero_witness:
  "\<exists>s0 s1 s2.
      wrapper_init [1] [[1]] [[0]] [1] ''Exponential'' [1] [1] 0 [Fin 0] (1/2) = Inr s0
    \<and> loop_body d0 s0 = Inr s1 \<and> events s0 = [(Fin 0, Some 0, SourceNode)]
    \<and> pending SourceNode (events s1) = 1
    \<and> schedule (Some (Fin 0)) (Some 0) (StationNode 0) [(Fin 1, Some 1, SourceNode)]
          = Inr [(Fin 1, Some 1, SourceNode)]
    \<and> queue.time_next (stations s1 ! 0) = Some (Fin 0)
    \<and> stuck 0 s1 \<and> s2 \<in> set (visited 1 [d1] s1) \<and> s2 \<noteq> s1
    \<and> stuck 0 s2
    \<and> departure_times (stations s2 ! 0) = departure_times (stations s1 ! 0)"
proof -
  from zero_service_steps obtain s0 s1 s2 where
    r: "wrapper_init [1] [[1]] [[0]] [1] ''Exponential'' [1] [1] 0 [Fin 0] (1/2) = Inr s0"
      "loop_body d0 s0 = Inr s1" "loop_body d1 s1 = Inr s2" "jobs s1 = 0"
      "events s0 = [(Fin 0, Some 0, SourceNode)]"
      "queue.time_next (stations s1 ! 0) = Some (Fin 0)"
      "length (stations s1) = 1" "in_system (stations s1 ! 0) = 1"
      "events s1 = [(Fin 1, Some 1, SourceNode)]"
      "in_system (stations s2 ! 0) = 2"
    by blast
  have st: "stuck 0 s1" using r by (simp add: stuck_def pending_def)
  have v: "s2 \<in> set (visited 1 [d1] s1)" using r by simp
  have ne: "s2 \<noteq> s1" using r(8,10) by auto
  have sch: "schedule (Some (Fin 0)) (Some 0) (StationNode 0) [(Fin 1, Some 1, SourceNode)]
          = Inr [(Fin 1, Some 1, SourceNode)]"
    by (simp add: schedule_def truthy_def)
  note t = follow_up_event_iff_time_next_nonzero
    [where s = s1 and k = 0 and s'' = s2 and final_jobs = 1 and ds = "[d1]"]
  have a: "stuck 0 s2 \<and> departure_times (stations s2 ! 0) = departure_times (stations s1 ! 0)"
    using t st v by blast
  have p: "pending SourceNode (events s1) = 1" using r(9) by (simp add: pending_def)
  show ?thesis using r(1,2,5,6) p sch st v ne a by blast
qed

section \<open>The clock\<close>

lemma at_or_after_Fin: "at_or_after c x \<longleftrightarrow> (\<exists>t. x = Fin t \<and> c \<le> t)"
  by (cases x) (simp_all add: at_or_after_def)

lemma at_or_after_mono: "at_or_after c x \<Longrightarrow> c' \<le> c \<Longrightarrow> at_or_after c' x"
  by (auto simp: at_or_after_Fin)

lemma fl_le_Fin [simp]: "fl_le (Fin a) (Fin b) \<longleftrightarrow> a \<le> b"
  by (auto simp: fl_le_def)

lemma ordered_from_Nil [simp]: "ordered_from c []"
  by (simp add: ordered_from_def)

lemma ordered_from_Cons:
  "ordered_from c (x # ts) \<longleftrightarrow> (\<exists>t. x = Fin t \<and> c \<le> t \<and> ordered_from t ts)"
proof
  assume a: "ordered_from c (x # ts)"
  then obtain t where t: "x = Fin t" "c \<le> t" by (auto simp: ordered_from_def at_or_after_Fin)
  have "at_or_after t y" if "y \<in> set ts" for y
  proof -
    from a that obtain u where "y = Fin u" by (auto simp: ordered_from_def list_all_iff at_or_after_Fin)
    moreover have "fl_le x y" using a that by (simp add: ordered_from_def)
    ultimately show ?thesis using t by (simp add: at_or_after_Fin)
  qed
  then have "ordered_from t ts" using a by (simp add: ordered_from_def list_all_iff)
  then show "\<exists>t. x = Fin t \<and> c \<le> t \<and> ordered_from t ts" using t by blast
next
  assume "\<exists>t. x = Fin t \<and> c \<le> t \<and> ordered_from t ts"
  then obtain t where t: "x = Fin t" "c \<le> t" "ordered_from t ts" by blast
  have "fl_le x y" if "y \<in> set ts" for y
    using t that by (auto simp: ordered_from_def list_all_iff at_or_after_Fin)
  moreover have "list_all (at_or_after c) ts"
    using t by (auto simp: ordered_from_def list_all_iff intro: at_or_after_mono)
  ultimately show "ordered_from c (x # ts)"
    using t by (simp add: ordered_from_def at_or_after_Fin)
qed

lemma ordered_from_mono: "ordered_from c ts \<Longrightarrow> c' \<le> c \<Longrightarrow> ordered_from c' ts"
  by (auto simp: ordered_from_def list_all_iff intro: at_or_after_mono)

lemma event_lt_Fin:
  "event_lt (Fin a, j, nd) (Fin b, j', nd') = Inr r \<Longrightarrow> (if r then a \<le> b else b \<le> a)"
  by (auto simp: event_lt_def split: if_splits option.splits node.splits)

lemma heappush_ordered:
  "heappush (Fin a, j, nd) evs = Inr evs' \<Longrightarrow> ordered_from c (map fst evs) \<Longrightarrow> c \<le> a \<Longrightarrow>
   ordered_from c (map fst evs') \<and> set evs' = insert (Fin a, j, nd) (set evs)"
proof (induction evs arbitrary: evs' c)
  case Nil
  then show ?case by (auto simp: ordered_from_Cons)
next
  case (Cons x xs)
  from Cons.prems(2) obtain b where b: "fst x = Fin b" "c \<le> b" "ordered_from b (map fst xs)"
    by (auto simp: ordered_from_Cons)
  obtain jx nx where x: "x = (Fin b, jx, nx)" using b(1) by (cases x) auto
  from Cons.prems(1) obtain r where r: "event_lt (Fin a, j, nd) x = Inr r"
    and res: "(if r then Inr ((Fin a, j, nd) # x # xs)
               else bind_err (heappush (Fin a, j, nd) xs) (\<lambda>ys. Inr (x # ys))) = Inr evs'"
    by (auto simp: bind_err_Inr)
  show ?case
  proof (cases r)
    case True
    then have "a \<le> b" using event_lt_Fin r x by fastforce
    then have "ordered_from a (map fst (x # xs))" using b by (auto simp: ordered_from_Cons)
    then show ?thesis using True res Cons.prems(3) by (auto simp: ordered_from_Cons)
  next
    case False
    then have ba: "b \<le> a" using event_lt_Fin r x by fastforce
    from False res obtain ys where ys: "heappush (Fin a, j, nd) xs = Inr ys" "evs' = x # ys"
      by (auto simp: bind_err_Inr)
    from Cons.IH [OF ys(1) b(3) ba] show ?thesis
      using ys(2) b by (auto simp: ordered_from_Cons)
  qed
qed

lemma arrival_lt_Fin:
  "(if arrival_lt (Fin a, i) (Fin b, i') then a \<le> b else b \<le> a)"
  by (auto simp: arrival_lt_def)

lemma heappush_arrival_ordered:
  "ordered_from c (map fst ys) \<Longrightarrow> c \<le> a \<Longrightarrow>
   ordered_from c (map fst (heappush_arrival (Fin a, i) ys))
   \<and> heappush_arrival (Fin a, i) ys \<noteq> []"
proof (induction ys arbitrary: c)
  case Nil
  then show ?case by (auto simp: ordered_from_Cons)
next
  case (Cons y ys)
  from Cons.prems(1) obtain b where b: "fst y = Fin b" "c \<le> b" "ordered_from b (map fst ys)"
    by (auto simp: ordered_from_Cons)
  obtain iy where y: "y = (Fin b, iy)" using b(1) by (cases y) auto
  show ?case
  proof (cases "arrival_lt (Fin a, i) y")
    case True
    then have "a \<le> b" using arrival_lt_Fin [of a i b iy] y by simp
    then have "ordered_from a (map fst (y # ys))" using b by (auto simp: ordered_from_Cons)
    then show ?thesis using True Cons.prems(2) by (auto simp: ordered_from_Cons)
  next
    case False
    then have ba: "b \<le> a" using arrival_lt_Fin [of a i b iy] y by simp
    from Cons.IH [OF b(3) ba] show ?thesis
      using False b by (auto simp: ordered_from_Cons)
  qed
qed


lemma heappush_set:
  "heappush e evs = Inr evs' \<Longrightarrow> set evs' = insert e (set evs)"
proof (induction evs arbitrary: evs')
  case Nil
  then show ?case by auto
next
  case (Cons x xs)
  from Cons.prems obtain b where
    r: "(if b then Inr (e # x # xs) else bind_err (heappush e xs) (\<lambda>ys. Inr (x # ys))) = Inr evs'"
    by (auto simp: bind_err_Inr)
  show ?case
  proof (cases b)
    case True
    then show ?thesis using r by auto
  next
    case False
    then obtain ys where ys: "heappush e xs = Inr ys" "evs' = x # ys"
      using r by (auto simp: bind_err_Inr)
    from Cons.IH [OF ys(1)] show ?thesis using ys(2) by auto
  qed
qed

lemma schedule_list_all:
  assumes "schedule t j nd evs = Inr evs'" and "list_all P evs"
    and "\<And>x. t = Some x \<Longrightarrow> P (x, j, nd)"
  shows "list_all P evs'"
  using assms(1)
proof (cases rule: schedule_cases)
  case skip
  then show ?thesis using assms(2) by simp
next
  case (push x)
  then show ?thesis using heappush_set [OF push(3)] assms(2,3) by (simp add: list_all_iff)
qed

lemma schedule_ordered:
  assumes "schedule t j nd evs = Inr evs'" and "ordered_from c (map fst evs)"
    and "t = None \<or> (\<exists>a. t = Some (Fin a) \<and> c \<le> a)"
  shows "ordered_from c (map fst evs')"
  using assms(1)
proof (cases rule: schedule_cases)
  case skip
  then show ?thesis using assms(2) by simp
next
  case (push x)
  then obtain a where a: "x = Fin a" "c \<le> a" using assms(3) by auto
  from heappush_ordered [OF _ assms(2) a(2)] push(3) a(1) show ?thesis by blast
qed

lemma service_new_sample: "service_new q x = Inr (Some sv) \<Longrightarrow> sv = x"
  by (auto simp: service_new_def np_random_lognormal_def np_random_exponential_def
      bind_err_def split: if_splits)

lemma Queue_action_out_time:
  "Queue_action_out t x u q = Inr q' \<Longrightarrow>
   queue.time_next q' = None \<or> queue.time_next q' = Some (fl_add t x)"
  by (erule Queue_action_out_cases) (auto dest: service_new_sample)

lemma Queue_action_in_time:
  "Queue_action_in t job x q = Inr q' \<Longrightarrow>
   queue.time_next q' = None \<or> queue.time_next q' = Some (fl_add t x)"
  by (erule Queue_action_in_cases) (auto dest: service_new_sample)

lemma time_next_after:
  assumes "tn = None \<or> tn = Some (fl_add (Fin c) x)" and "fl_nonneg x"
  shows "tn = None \<or> (\<exists>a. tn = Some (Fin a) \<and> c \<le> a)"
  using assms by (auto simp: fl_nonneg_def at_or_after_Fin)

lemma source_step:
  assumes h: "source_head (Fin t0) S"
    and out: "Source_action_out (Fin t0) x u S = Inr S'"
    and inc: "increment x S = Inr (inc, prev)" and nn: "fl_nonneg inc"
  shows "\<exists>t1. source.time_next S' = Fin t1 \<and> t0 \<le> t1 \<and> source_head (Fin t1) S'"
proof -
  from h obtain a rest where na: "next_arrival S = a # rest" "fst a = Fin t0"
    "ordered_from t0 (map fst rest)"
    by (auto simp: source_head_def split: list.splits npfloat.splits)
  from nn obtain i where i: "inc = Fin i" "0 \<le> i" by (auto simp: fl_nonneg_def at_or_after_Fin)
  let ?heap = "heappush_arrival (Fin (t0 + i), next_source S) rest"
  from out inc na(1) i(1) obtain top where top: "index ?heap 0 = Inr top"
    and S': "next_arrival S' = ?heap" "source.time_next S' = fst top"
    by (auto simp: Source_action_out_def create_next_arrival_time_def bind_err_Inr Let_def)
  have "t0 \<le> t0 + i" using i(2) by simp
  from heappush_arrival_ordered [OF na(3) this]
  have o: "ordered_from t0 (map fst ?heap)" and ne: "?heap \<noteq> []" by blast+
  from ne obtain rest' where hp: "?heap = top # rest'"
    using top by (cases ?heap) (auto simp: index_def)
  from o hp obtain t1 where t1: "fst top = Fin t1" "t0 \<le> t1" "ordered_from t1 (map fst rest')"
    by (auto simp: ordered_from_Cons)
  have "source_head (Fin t1) S'" using S'(1) hp t1 by (simp add: source_head_def)
  then show ?thesis using S'(2) t1 by auto
qed

lemma pending_zero: "pending nd evs = 0 \<longleftrightarrow> (\<forall>e \<in> set evs. snd (snd e) \<noteq> nd)"
  by (auto simp: pending_def filter_empty_conv)

lemma deliver_causal:
  assumes c: "causal s" and nn: "fl_nonneg x" and del: "deliver dest job x s = Inr s'"
  shows "causal s'"
  using del
proof (cases rule: deliver_cases)
  case exit
  then show ?thesis using c by simp
next
  case (arrive q' evs)
  from c obtain cl where cl: "clock s = Fin cl" "ordered_from cl (map fst (events s))"
    by (auto simp: causal_def split: npfloat.splits)
  have tn: "queue.time_next q' = None \<or> (\<exists>a. queue.time_next q' = Some (Fin a) \<and> cl \<le> a)"
    using time_next_after [OF _ nn, of "queue.time_next q'" cl]
      Queue_action_in_time [OF arrive(3)] cl(1) by simp
  have o: "ordered_from cl (map fst evs)"
    using schedule_ordered [OF arrive(4) cl(2) tn] .
  have p: "pending SourceNode evs = pending SourceNode (events s)"
    using schedule_pending [OF arrive(4), of SourceNode] by simp
  have l: "list_all (\<lambda>e. snd (snd e) \<noteq> SourceNode \<or> source_head (fst e) (Source s)) evs"
    using c by (intro schedule_list_all [OF arrive(4)]) (auto simp: causal_def)
  show ?thesis using c cl o p l arrive(5) by (simp add: causal_def)
qed


lemma loop_body_causal:
  assumes c: "causal s" and nn: "increments_nonneg d s" and step: "loop_body d s = Inr s'"
  shows "causal s' \<and> fl_le (clock s) (clock s')
         \<and> (\<exists>job nd rest. events s = (clock s', job, nd) # rest)"
  using step
proof (cases rule: loop_body_cases)
  case (source curr job rest S evs s3 m)
  from c source(1) obtain cl t0 where cl: "clock s = Fin cl" "curr = Fin t0" "cl \<le> t0"
      "ordered_from t0 (map fst rest)"
    by (auto simp: causal_def ordered_from_Cons split: npfloat.splits)
  have p0: "pending SourceNode rest = 0"
    using c source(1) by (simp add: causal_def pending_Cons)
  have h: "source_head (Fin t0) (Source s)"
    using c source(1) cl(2) by (simp add: causal_def)
  from source(2) obtain inc prev where inc: "increment (out_sample d) (Source s) = Inr (inc, prev)"
    by (auto simp: Source_action_out_def create_next_arrival_time_def bind_err_Inr)
  then have "fl_nonneg inc" using nn source(1) by (simp add: increments_nonneg_def)
  from source_step [OF h _ inc this] source(2) cl(2)
  obtain t1 where t1: "source.time_next S = Fin t1" "t0 \<le> t1" "source_head (Fin t1) S"
    by auto
  let ?s2 = "s\<lparr>clock := curr, Source := S, events := evs\<rparr>"
  have o: "ordered_from t0 (map fst evs)"
    using schedule_ordered [OF source(3) cl(4)] t1 by simp
  have p: "pending SourceNode evs \<le> 1"
    using schedule_pending [OF source(3), of SourceNode] p0 by simp
  have "list_all (\<lambda>e. snd (snd e) \<noteq> SourceNode \<or> source_head (fst e) S) rest"
    using p0 by (simp add: pending_zero list_all_iff)
  then have l: "list_all (\<lambda>e. snd (snd e) \<noteq> SourceNode \<or> source_head (fst e) S) evs"
    using t1 by (intro schedule_list_all [OF source(3)]) auto
  have "causal ?s2" using cl(2) o p l by (simp add: causal_def)
  moreover have "fl_nonneg (in_sample d)" using nn by (simp add: increments_nonneg_def)
  ultimately have "causal s3" using deliver_causal source(4) by blast
  moreover have "clock s3 = curr" using deliver_frame [OF source(4)] by simp
  ultimately show ?thesis using source(1,6) cl by (simp add: causal_def)
next
  case (station curr job k0 rest q' evs dest s3 m)
  from c station(1) obtain cl t0 where cl: "clock s = Fin cl" "curr = Fin t0" "cl \<le> t0"
      "ordered_from t0 (map fst rest)"
    by (auto simp: causal_def ordered_from_Cons split: npfloat.splits)
  have nx: "fl_nonneg (out_sample d)"
    using nn station(1) by (simp add: increments_nonneg_def)
  let ?s2 = "s\<lparr>clock := curr, stations := (stations s)[k0 := q'], events := evs\<rparr>"
  have tn: "queue.time_next q' = None \<or> (\<exists>a. queue.time_next q' = Some (Fin a) \<and> t0 \<le> a)"
    using time_next_after [OF _ nx, of "queue.time_next q'" t0]
      Queue_action_out_time [OF station(3)] cl(2) by simp
  have o: "ordered_from t0 (map fst evs)"
    using schedule_ordered [OF station(4) cl(4) tn] .
  have p: "pending SourceNode evs \<le> 1"
    using schedule_pending [OF station(4), of SourceNode] c station(1)
    by (simp add: causal_def pending_Cons)
  have "list_all (\<lambda>e. snd (snd e) \<noteq> SourceNode \<or> source_head (fst e) (Source s)) rest"
    using c station(1) by (simp add: causal_def)
  then have l: "list_all (\<lambda>e. snd (snd e) \<noteq> SourceNode \<or> source_head (fst e) (Source s)) evs"
    by (intro schedule_list_all [OF station(4)]) auto
  have "causal ?s2" using cl(2) o p l by (simp add: causal_def)
  moreover have "fl_nonneg (in_sample d)" using nn by (simp add: increments_nonneg_def)
  ultimately have "causal s3" using deliver_causal station(6) by blast
  moreover have "clock s3 = curr" using deliver_frame [OF station(6)] by simp
  ultimately show ?thesis using station(1,8) cl by (simp add: causal_def)
qed

lemma causal_clock_Fin: "causal s \<Longrightarrow> \<exists>c. clock s = Fin c"
  by (auto simp: causal_def split: npfloat.splits)

lemma visited_causal:
  "causal s \<Longrightarrow> nonneg_run final_jobs ds s \<Longrightarrow>
   sorted_wrt fl_le (map clock (visited final_jobs ds s))
   \<and> (\<forall>s' \<in> set (visited final_jobs ds s). causal s' \<and> fl_le (clock s) (clock s'))"
proof (induction ds arbitrary: s)
  case Nil
  then show ?case using causal_clock_Fin [of s] by auto
next
  case (Cons d ds)
  from causal_clock_Fin [OF Cons.prems(1)] obtain c where c: "clock s = Fin c" by blast
  show ?case
  proof (cases "jobs s < final_jobs")
    case False
    then show ?thesis using Cons.prems c by simp
  next
    case True
    show ?thesis
    proof (cases "loop_body d s")
      case (Inl e)
      then show ?thesis using True Cons.prems c by simp
    next
      case (Inr s1)
      then have nn: "increments_nonneg d s" "nonneg_run final_jobs ds s1"
        using True Cons.prems(2) by simp_all
      from loop_body_causal [OF Cons.prems(1) nn(1) Inr]
      have c1: "causal s1" and le: "fl_le (clock s) (clock s1)" by blast+
      from causal_clock_Fin [OF c1] obtain c' where c': "clock s1 = Fin c'" by blast
      from Cons.IH [OF c1 nn(2)]
      have ih: "sorted_wrt fl_le (map clock (visited final_jobs ds s1))"
        "\<forall>s' \<in> set (visited final_jobs ds s1). causal s' \<and> fl_le (clock s1) (clock s')"
        by blast+
      have tr: "fl_le (clock s) (clock s')" if "s' \<in> set (visited final_jobs ds s1)" for s'
      proof -
        from ih(2) that have a: "causal s'" "fl_le (clock s1) (clock s')" by blast+
        from causal_clock_Fin [OF a(1)] obtain c'' where "clock s' = Fin c''" by blast
        then show ?thesis using a(2) le c c' by simp
      qed
      have v: "visited final_jobs (d # ds) s = s # visited final_jobs ds s1"
        using True Inr by simp
      show ?thesis unfolding v using ih tr Cons.prems(1) c by auto
    qed
  qed
qed


lemma samples_nonneg:
  assumes "sequence_err (map (\<lambda>i.
              bind_err (if i < length xs then Inr (xs ! i) else Inl OutOfDraws) (\<lambda>x.
              bind_err (g i x) (\<lambda>t. Inr (t, i)))) js) = Inr arr"
    and "\<And>i x t. g i x = Inr t \<Longrightarrow> t = x" and "list_all fl_nonneg xs"
  shows "list_all (\<lambda>a. fl_nonneg (fst a)) arr"
  using assms(1)
proof (induction js arbitrary: arr)
  case Nil
  then show ?case by simp
next
  case (Cons j js)
  from Cons.prems obtain x t ys where
    a: "(if j < length xs then Inr (xs ! j) else Inl OutOfDraws) = Inr x" "g j x = Inr t"
    and ys: "sequence_err (map (\<lambda>i.
              bind_err (if i < length xs then Inr (xs ! i) else Inl OutOfDraws) (\<lambda>x.
              bind_err (g i x) (\<lambda>t. Inr (t, i)))) js) = Inr ys"
    and arr: "arr = (t, j) # ys"
    by (auto simp: bind_err_Inr)
  have "t = xs ! j \<and> j < length xs" using a assms(2) by (auto split: if_splits)
  then have "fl_nonneg t" using assms(3) by (simp add: list_all_length)
  then show ?case using Cons.IH [OF ys] arr by simp
qed

lemma heapify_arrival_ordered:
  "list_all (\<lambda>a. fl_nonneg (fst a)) arr \<Longrightarrow>
   ordered_from 0 (map fst (heapify_arrival arr)) \<and> (arr \<noteq> [] \<longrightarrow> heapify_arrival arr \<noteq> [])"
proof (induction arr)
  case Nil
  then show ?case by (simp add: heapify_arrival_def)
next
  case (Cons a arr)
  then obtain t i where a: "a = (Fin t, i)" "0 \<le> t"
    by (cases a) (auto simp: fl_nonneg_def at_or_after_Fin)
  have "ordered_from 0 (map fst (heapify_arrival arr))" using Cons by simp
  from heappush_arrival_ordered [OF this a(2), of i] show ?case
    using a(1) by (simp add: heapify_arrival_def)
qed

lemma samples_exponential:
  assumes "sequence_err (map (\<lambda>i.
              bind_err (if i < length xs then Inr (xs ! i) else Inl OutOfDraws) (\<lambda>x.
              bind_err (np_random_exponential (m ! i) x) (\<lambda>t. Inr (t, i)))) js) = Inr arr"
    and "list_all fl_nonneg xs"
  shows "list_all (\<lambda>a. fl_nonneg (fst a)) arr"
  by (rule samples_nonneg [where g = "\<lambda>i. np_random_exponential (m ! i)", OF assms(1) _ assms(2)])
    (auto simp: np_random_exponential_def split: if_splits)

lemma samples_lognormal:
  assumes "sequence_err (map (\<lambda>i.
              bind_err (if i < length xs then Inr (xs ! i) else Inl OutOfDraws) (\<lambda>x.
              bind_err (np_random_lognormal (m ! i) (sg ! i) x) (\<lambda>t. Inr (t, i)))) js) = Inr arr"
    and "list_all fl_nonneg xs"
  shows "list_all (\<lambda>a. fl_nonneg (fst a)) arr"
  by (rule samples_nonneg [where g = "\<lambda>i. np_random_lognormal (m ! i) (sg ! i)",
        OF assms(1) _ assms(2)])
    (auto simp: np_random_lognormal_def split: if_splits)

lemma Source_init_head:
  assumes init: "Source_init am sm fam ac r xs u = Inr S" and nn: "list_all fl_nonneg xs"
  shows "\<exists>t. source.time_next S = Fin t \<and> 0 \<le> t \<and> source_head (Fin t) S"
proof -
  have "\<exists>arr top. list_all (\<lambda>a. fl_nonneg (fst a)) arr
          \<and> index (heapify_arrival arr) 0 = Inr top
          \<and> next_arrival S = heapify_arrival arr \<and> source.time_next S = fst top"
  proof (cases "fam = ''Exponential''")
    case True
    with init obtain arr top where
      a: "sequence_err (map (\<lambda>i.
              bind_err (if i < length xs then Inr (xs ! i) else Inl OutOfDraws) (\<lambda>x.
              bind_err (np_random_exponential (map Fin am ! i) x) (\<lambda>t. Inr (t, i))))
              [0..<length am]) = Inr arr"
      and b: "index (heapify_arrival arr) 0 = Inr top"
        "next_arrival S = heapify_arrival arr" "source.time_next S = fst top"
      unfolding Source_init_def Let_def by (auto simp: bind_err_Inr)
    from samples_exponential [OF a nn] b show ?thesis by blast
  next
    case False
    then have ln: "fam = ''Lognormal''" using init
      by (auto simp: Source_init_def Let_def bind_err_def split: sum.splits if_splits)
    with init obtain m sg arr top where
      a: "sequence_err (map (\<lambda>i.
              bind_err (if i < length xs then Inr (xs ! i) else Inl OutOfDraws) (\<lambda>x.
              bind_err (np_random_lognormal (m ! i) (sg ! i) x) (\<lambda>t. Inr (t, i))))
              [0..<length am]) = Inr arr"
      and b: "index (heapify_arrival arr) 0 = Inr top"
        "next_arrival S = heapify_arrival arr" "source.time_next S = fst top"
      unfolding Source_init_def Let_def by (auto simp: bind_err_Inr)
    from samples_lognormal [OF a nn] b show ?thesis by blast
  qed
  then obtain arr top where arr: "list_all (\<lambda>a. fl_nonneg (fst a)) arr"
    and top: "index (heapify_arrival arr) 0 = Inr top"
    and S: "next_arrival S = heapify_arrival arr" "source.time_next S = fst top"
    by blast
  from top obtain rest where h: "heapify_arrival arr = top # rest"
    by (cases "heapify_arrival arr") (auto simp: index_def)
  from heapify_arrival_ordered [OF arr] h obtain t where
    t: "fst top = Fin t" "0 \<le> t" "ordered_from t (map fst rest)"
    by (auto simp: ordered_from_Cons)
  then have "source_head (Fin t) S" using S(1) h by (simp add: source_head_def)
  then show ?thesis using S(2) t by auto
qed

lemma wrapper_init_causal:
  assumes "wrapper_init am sm tm svm fam ac sc r xs u = Inr s0" and "list_all fl_nonneg xs"
  shows "causal s0 \<and> clock s0 = Fin 0"
  using assms(1)
proof (cases rule: wrapper_init_cases)
  case (1 row0 S qs)
  from Source_init_head [OF 1(2) assms(2)] obtain t where
    "source.time_next S = Fin t" "0 \<le> t" "source_head (Fin t) S" by blast
  then show ?thesis using 1(5) by (simp add: causal_def pending_def ordered_from_Cons)
qed

lemma visited_consecutive:
  "causal s \<Longrightarrow> nonneg_run final_jobs ds s \<Longrightarrow> Suc i < length (visited final_jobs ds s) \<Longrightarrow>
   \<exists>job nd rest. events (visited final_jobs ds s ! i)
       = (clock (visited final_jobs ds s ! Suc i), job, nd) # rest"
proof (induction ds arbitrary: s i)
  case Nil
  then show ?case by simp
next
  case (Cons d ds)
  show ?case
  proof (cases "jobs s < final_jobs")
    case False
    then show ?thesis using Cons.prems by simp
  next
    case True
    show ?thesis
    proof (cases "loop_body d s")
      case (Inl e)
      then show ?thesis using True Cons.prems by simp
    next
      case (Inr s1)
      then have nn: "increments_nonneg d s" "nonneg_run final_jobs ds s1"
        using True Cons.prems(2) by simp_all
      from loop_body_causal [OF Cons.prems(1) nn(1) Inr]
      have c1: "causal s1" and ev: "\<exists>job nd rest. events s = (clock s1, job, nd) # rest"
        by blast+
      have v: "visited final_jobs (d # ds) s = s # visited final_jobs ds s1"
        using True Inr by simp
      have h: "visited final_jobs ds s1 ! 0 = s1"
        by (cases ds) (auto split: sum.splits)
      show ?thesis
      proof (cases i)
        case 0
        then show ?thesis unfolding v using ev h by simp
      next
        case (Suc j)
        then have "Suc j < length (visited final_jobs ds s1)"
          using Cons.prems(3) unfolding v by simp
        from Cons.IH [OF c1 nn(2) this] show ?thesis unfolding v using Suc by simp
      qed
    qed
  qed
qed

text \<open>
  C7. In a run, from the setup of \<open>wrapper\<close> on, in which the first interarrival samples
  and the increments sampled in every iteration are finite and not negative, the clocks
  of the states at the head of the loop, in the order of the run, never decrease; and
  the clock of each state after the first is the time of the event that was at the head
  of the heap in the state before it, the event popped.
\<close>

theorem clock_never_decreases:
  assumes "wrapper_init am sm tm svm fam ac sc r xs u = Inr s0"
    and "list_all fl_nonneg xs"
    and "nonneg_run final_jobs ds s0"
  shows "sorted_wrt fl_le (map clock (visited final_jobs ds s0))
     \<and> (\<forall>i. Suc i < length (visited final_jobs ds s0) \<longrightarrow>
           (\<exists>job nd rest. events (visited final_jobs ds s0 ! i)
                = (clock (visited final_jobs ds s0 ! Suc i), job, nd) # rest))"
proof -
  from wrapper_init_causal [OF assms(1,2)] have c: "causal s0" by simp
  from visited_causal [OF c assms(3)] visited_consecutive [OF c assms(3)]
  show ?thesis by blast
qed

theorem clock_never_decreases_witness:
  "\<exists>s0 s1 s2. wrapper_init [1] [[1]] [[0]] [1] ''Exponential'' [1] [1] 0 [Fin 1] (1/2) = Inr s0
     \<and> list_all fl_nonneg [Fin 1] \<and> nonneg_run 1 [d1, d2] s0
     \<and> visited 1 [d1, d2] s0 = [s0, s1, s2]
     \<and> sorted_wrt fl_le (map clock (visited 1 [d1, d2] s0))
     \<and> clock s0 = Fin 0 \<and> clock s1 = Fin 1 \<and> clock s2 = Fin 2"
proof -
  from example_run obtain s0 s1 s2 where
    r: "wrapper_init [1] [[1]] [[0]] [1] ''Exponential'' [1] [1] 0 [Fin 1] (1/2) = Inr s0"
      "loop_body d1 s0 = Inr s1" "loop_body d2 s1 = Inr s2"
      "visited 1 [d1, d2] s0 = [s0, s1, s2]" "jobs s0 = 0" "jobs s1 = 0"
      "clock s0 = Fin 0" "clock s1 = Fin 1" "clock s2 = Fin 2"
      "increments_nonneg d1 s0" "increments_nonneg d2 s1"
    by blast
  have x: "list_all fl_nonneg [Fin 1]" by (simp add: fl_nonneg_def at_or_after_def)
  have n: "nonneg_run 1 [d1, d2] s0" using r by simp
  from clock_never_decreases [OF r(1) x n]
  have "sorted_wrt fl_le (map clock (visited 1 [d1, d2] s0))" by blast
  then show ?thesis using r(1,4,7,8,9) x n by blast
qed

end
